theory Spec2Isabelle
  imports Complex_Main "HOL-Library.Sublist"
begin

section \<open>Command-line arguments and the stratum planner\<close>

text \<open>
  The options of the argument parser that the crawl engine reads. Python's unbounded
  integers are \<^typ>\<open>int\<close>. The access token is optional; Python's \<open>not args.github_token\<close>
  is true for a missing and for an empty token.
\<close>

record args =
  min_size :: int
  max_size :: int
  stratum_size :: int
  throttle :: bool
  forks :: bool
  licensed :: bool
  github_token :: "string option"

definition MAX_FILE_SIZE :: int where
  "MAX_FILE_SIZE = 393216"

definition no_token :: "args \<Rightarrow> bool" where
  "no_token a = (case github_token a of None \<Rightarrow> True | Some t \<Rightarrow> t = [])"

text \<open>
  The argument checks, in the order of the source; \<open>Some msg\<close> is \<open>sys.exit(msg)\<close>.
  The second check exits when \<open>min_size \<ge> max_size\<close>.
\<close>

definition validate :: "args \<Rightarrow> string option" where
  "validate a =
     (if min_size a < 1 then Some ''min-size must be positive''
      else if min_size a \<ge> max_size a
        then Some ''min-size must be less than or equal to max-size''
      else if max_size a < 1 then Some ''max-size must be positive''
      else if max_size a > MAX_FILE_SIZE
        then Some ''max-size must be less than or equal to 393216''
      else if stratum_size a < 1 then Some ''stratum-size must be positive''
      else None)"

text \<open>
  The bounds of the strata, as the main loop visits them: \<open>strat_first\<close> and
  \<open>strat_last\<close> are initialised from the arguments, the loop runs while
  \<open>strat_first \<le> max_size\<close>, and each iteration ends by advancing both bounds.
  The loop does not terminate for a non-positive width, so it is a partial function:
  \<open>None\<close> is a loop that runs forever. The accumulator is the list of strata visited.
\<close>

partial_function (option) strata_loop ::
  "int \<Rightarrow> int \<Rightarrow> int \<Rightarrow> int \<Rightarrow> (int \<times> int) list \<Rightarrow> (int \<times> int) list option" where
  "strata_loop width mx first lst acc =
     (if first \<le> mx
      then strata_loop width mx (first + width) (min (lst + width) mx) (acc @ [(first, lst)])
      else Some acc)"

declare strata_loop.simps [code]

definition strata :: "int \<Rightarrow> int \<Rightarrow> int \<Rightarrow> (int \<times> int) list option" where
  "strata mn mx width = strata_loop width mx mn (min (mn + width - 1) mx) []"

text \<open>Each stratum's lower bound is the previous stratum's upper bound plus one.\<close>

fun contiguous :: "(int \<times> int) list \<Rightarrow> bool" where
  "contiguous [] = True"
| "contiguous [r] = True"
| "contiguous (r # r' # rs) = (fst r' = snd r + 1 \<and> contiguous (r' # rs))"

text \<open>No size belongs to two strata of the list.\<close>

definition in_stratum :: "int \<Rightarrow> int \<times> int \<Rightarrow> bool" where
  "in_stratum x r = (fst r \<le> x \<and> x \<le> snd r)"

fun non_overlapping :: "(int \<times> int) list \<Rightarrow> bool" where
  "non_overlapping [] = True"
| "non_overlapping (r # rs) =
     (fst r \<le> snd r \<and> list_all (\<lambda>r'. snd r < fst r') rs \<and> non_overlapping rs)"

section \<open>The results database\<close>

text \<open>
  The items of the API responses that the code reads, with the keys it reads.
\<close>

record repo_item =
  item_id :: int
  item_name :: string
  item_full_name :: string
  item_description :: "string option"
  item_url :: string
  item_fork :: bool
  item_owner_id :: int
  item_owner_login :: string
  item_default_branch :: string
  item_commits_url :: string

record tree_entry =
  entry_type :: string
  entry_path :: string
  entry_sha :: string

text \<open>A tree entry after the code has added the key \<open>name\<close> to it.\<close>

record file_item = tree_entry +
  entry_name :: string

record commit_item =
  commit_sha :: string
  commit_message :: string
  commit_date :: string
  commit_parents :: "string list"

text \<open>The rows of the three tables of the schema.\<close>

record repo_row =
  repo_id :: int
  repo_name :: string
  repo_full_name :: string
  repo_description :: "string option"
  repo_url :: string
  repo_fork :: int
  repo_owner_id :: int
  repo_owner_login :: string

record file_row =
  file_id :: int
  file_name :: string
  file_path :: string
  file_sha :: string
  file_repo_id :: int

record comit_row =
  comit_id :: int
  comit_sha :: string
  comit_message :: string
  comit_size :: int
  comit_created :: string
  comit_content :: string
  comit_compiler_version :: string
  comit_parents :: string
  comit_file_id :: int

text \<open>
  The database: the rows of each table in insertion order, and the connection's
  row id of the last successful insert, which the cursor's \<open>lastrowid\<close> reports.
\<close>

record database =
  tbl_repo :: "repo_row list"
  tbl_file :: "file_row list"
  tbl_comit :: "comit_row list"
  last_insert_rowid :: int

definition empty_db :: database where
  "empty_db = \<lparr>tbl_repo = [], tbl_file = [], tbl_comit = [], last_insert_rowid = 0\<rparr>"

text \<open>
  A row inserted without a value for its \<open>INTEGER PRIMARY KEY\<close> gets one more than
  the largest key in use, and 1 in an empty table.
\<close>

definition next_rowid :: "int list \<Rightarrow> int" where
  "next_rowid ids = (if ids = [] then 1 else Max (set ids) + 1)"

text \<open>
  \<open>INSERT OR IGNORE\<close> into each table: the row is skipped when it conflicts with a
  stored row on the primary key (\<open>repo\<close>) or on the \<open>UNIQUE\<close> constraint
  (\<open>file\<close>: path and repo_id; \<open>comit\<close>: sha and file_id).
\<close>

definition sql_insert_repo :: "repo_row \<Rightarrow> database \<Rightarrow> database" where
  "sql_insert_repo r d =
     (if list_ex (\<lambda>x. repo_id x = repo_id r) (tbl_repo d) then d
      else d\<lparr>tbl_repo := tbl_repo d @ [r], last_insert_rowid := repo_id r\<rparr>)"

definition sql_insert_file :: "string \<Rightarrow> string \<Rightarrow> string \<Rightarrow> int \<Rightarrow> database \<Rightarrow> database" where
  "sql_insert_file nm pth sh rid d =
     (if list_ex (\<lambda>x. file_path x = pth \<and> file_repo_id x = rid) (tbl_file d) then d
      else let k = next_rowid (map file_id (tbl_file d))
           in d\<lparr>tbl_file := tbl_file d @
                  [\<lparr>file_id = k, file_name = nm, file_path = pth, file_sha = sh,
                    file_repo_id = rid\<rparr>],
                last_insert_rowid := k\<rparr>)"

definition sql_insert_comit ::
  "string \<Rightarrow> string \<Rightarrow> int \<Rightarrow> string \<Rightarrow> string \<Rightarrow> string \<Rightarrow> string \<Rightarrow> int \<Rightarrow> database \<Rightarrow> database" where
  "sql_insert_comit sh msg sz created content vers parents fid d =
     (if list_ex (\<lambda>x. comit_sha x = sh \<and> comit_file_id x = fid) (tbl_comit d) then d
      else let k = next_rowid (map comit_id (tbl_comit d))
           in d\<lparr>tbl_comit := tbl_comit d @
                  [\<lparr>comit_id = k, comit_sha = sh, comit_message = msg, comit_size = sz,
                    comit_created = created, comit_content = content,
                    comit_compiler_version = vers, comit_parents = parents,
                    comit_file_id = fid\<rparr>],
                last_insert_rowid := k\<rparr>)"

section \<open>Regular expressions of the source\<close>

text \<open>
  Text is a list of 8-bit characters, read as the code points below 256. The classes
  \<open>\d\<close>, \<open>\s\<close> and \<open>\w\<close> are given for ASCII; \<open>\s\<close> also has the other
  white space below 256.
\<close>

definition is_digit :: "char \<Rightarrow> bool" where
  "is_digit c = (let n = (of_char c :: nat) in 48 \<le> n \<and> n \<le> 57)"

definition is_space :: "char \<Rightarrow> bool" where
  "is_space c = (let n = (of_char c :: nat) in
     (9 \<le> n \<and> n \<le> 13) \<or> (28 \<le> n \<and> n \<le> 32) \<or> n = 133 \<or> n = 160)"

definition is_word :: "char \<Rightarrow> bool" where
  "is_word c = (let n = (of_char c :: nat) in
     (48 \<le> n \<and> n \<le> 57) \<or> (65 \<le> n \<and> n \<le> 90) \<or> (97 \<le> n \<and> n \<le> 122) \<or> n = 95)"

text \<open>
  The fragment of regular expressions that the version pattern uses, matched as
  Python matches it: items in sequence, an optional or repeated character class taken
  greedily, with backtracking to the shorter alternative when the rest fails. The
  group of the pattern is one or more characters of a class; \<open>CaptureMore\<close> is the
  group after its first character. The third argument is the text captured so far.
\<close>

datatype regex_item =
    Literal string
  | Optional "char \<Rightarrow> bool"
  | Many "char \<Rightarrow> bool"
  | Capture1 "char \<Rightarrow> bool"
  | CaptureMore "char \<Rightarrow> bool"

function rx_match :: "regex_item list \<Rightarrow> string \<Rightarrow> string \<Rightarrow> string option" where
  "rx_match [] t g = Some g"
| "rx_match (Literal l # rs) t g =
     (if prefix l t then rx_match rs (drop (length l) t) g else None)"
| "rx_match (Optional p # rs) [] g = rx_match rs [] g"
| "rx_match (Optional p # rs) (c # cs) g =
     (if p c
      then (case rx_match rs cs g of Some r \<Rightarrow> Some r | None \<Rightarrow> rx_match rs (c # cs) g)
      else rx_match rs (c # cs) g)"
| "rx_match (Many p # rs) [] g = rx_match rs [] g"
| "rx_match (Many p # rs) (c # cs) g =
     (if p c
      then (case rx_match (Many p # rs) cs g of
              Some r \<Rightarrow> Some r
            | None \<Rightarrow> rx_match rs (c # cs) g)
      else rx_match rs (c # cs) g)"
| "rx_match (Capture1 p # rs) [] g = None"
| "rx_match (Capture1 p # rs) (c # cs) g =
     (if p c then rx_match (CaptureMore p # rs) cs (g @ [c]) else None)"
| "rx_match (CaptureMore p # rs) [] g = rx_match rs [] g"
| "rx_match (CaptureMore p # rs) (c # cs) g =
     (if p c
      then (case rx_match (CaptureMore p # rs) cs (g @ [c]) of
              Some r \<Rightarrow> Some r
            | None \<Rightarrow> rx_match rs (c # cs) g)
      else rx_match rs (c # cs) g)"
  by pat_completeness auto
termination
  by (relation "measure (\<lambda>(rs, t, g). 2 * length t + length rs)") auto

text \<open>\<open>re.search\<close>: the match at the leftmost position that has one.\<close>

fun re_search :: "regex_item list \<Rightarrow> string \<Rightarrow> string option" where
  "re_search rs [] = rx_match rs [] []"
| "re_search rs (c # cs) =
     (case rx_match rs (c # cs) [] of Some g \<Rightarrow> Some g | None \<Rightarrow> re_search rs cs)"

text \<open>The pattern \<^verbatim>\<open>pragma solidity [<>^]?=?\s*([\d.]+)\<close>.\<close>

definition pragma_re :: "regex_item list" where
  "pragma_re =
     [Literal ''pragma solidity '',
      Optional (\<lambda>c. c \<in> set ''<>^''),
      Optional (\<lambda>c. c = CHR ''=''),
      Many is_space,
      Capture1 (\<lambda>c. is_digit c \<or> c = CHR ''.'')]"

definition find_compiler_version :: "string \<Rightarrow> string" where
  "find_compiler_version text =
     (case re_search pragma_re text of None \<Rightarrow> [] | Some g \<Rightarrow> g)"

text \<open>
  The filter on the paths of a tree, \<^verbatim>\<open>\w\.sol$\<close>: \<open>$\<close> matches at the end of the
  text and before a newline that ends it.
\<close>

definition ends_word_sol :: "string \<Rightarrow> bool" where
  "ends_word_sol p =
     (5 \<le> length p \<and> drop (length p - 4) p = ''.sol'' \<and> is_word (p ! (length p - 5)))"

definition is_sol_path :: "string \<Rightarrow> bool" where
  "is_sol_path p =
     (ends_word_sol p \<or> (p \<noteq> [] \<and> last p = CHR 0x0A \<and> ends_word_sol (butlast p)))"

text \<open>
  The file name, \<^verbatim>\<open>[\w-]+?(?=\.)\<close>: the leftmost run of word characters and hyphens
  that a dot follows. A dot is not in the class, so the shortest such run at a position
  is the whole run that starts there.
\<close>

definition name_char :: "char \<Rightarrow> bool" where
  "name_char c = (is_word c \<or> c = CHR ''-'')"

definition name_at :: "string \<Rightarrow> string option" where
  "name_at t =
     (if takeWhile name_char t \<noteq> [] \<and> prefix ''.'' (dropWhile name_char t)
      then Some (takeWhile name_char t) else None)"

fun name_search :: "string \<Rightarrow> string option" where
  "name_search [] = None"
| "name_search (c # cs) =
     (case name_at (c # cs) of Some r \<Rightarrow> Some r | None \<Rightarrow> name_search cs)"

definition with_name :: "tree_entry \<Rightarrow> file_item" where
  "with_name f =
     \<lparr>entry_type = entry_type f, entry_path = entry_path f, entry_sha = entry_sha f,
      entry_name = (case name_search (entry_path f) of
                      Some r \<Rightarrow> r | None \<Rightarrow> entry_path f)\<rparr>"

section \<open>Program state, responses and results\<close>

text \<open>
  What a run leaves behind besides the database: each \<open>time.sleep\<close>, each HTTP request
  (by its prepared URL) and each entry written to the log file, in order.
\<close>

datatype event = Sleep rat | Request string | LogEntry string int

text \<open>
  The global variables of the script, the database, the rows appended to the
  statistics file, the wall clock (\<open>time.time()\<close>, in seconds; only sleeping advances
  it), the trace of events, and the arguments of every call of \<open>search\<close>.
\<close>

record globals =
  strat_first :: int
  strat_last :: int
  pop_repo :: int
  sam_repo :: int
  sam_file :: int
  sam_comit :: int
  total_sam_repo :: int
  total_sam_file :: int
  total_sam_comit :: int
  rate_used :: int
  api_calls :: int
  current_license :: string
  current_cumulative_pop :: int
  db :: database
  stats :: "int list list"
  clock :: rat
  trace :: "event list"
  searches :: "(int \<times> int \<times> string \<times> string) list"

text \<open>
  The decoded body of a response, by the endpoint it comes from: a search result
  (\<open>total_count\<close> and \<open>items\<close>), a tree, a list of commits, an error object with a
  \<open>message\<close>, or a body that is not JSON.
\<close>

datatype body =
    SearchResults int "repo_item list"
  | TreeListing "tree_entry list"
  | CommitList "commit_item list"
  | ErrorMessage string
  | NoJson

text \<open>
  A response: status, final URL, the three headers the code reads (numeric, as GitHub
  sends them; \<open>Retry-After\<close> is a number of seconds), the \<open>next\<close> link, the decoded body
  and the raw text.
\<close>

record response =
  status_code :: int
  resp_url :: string
  ratelimit_used :: "int option"
  ratelimit_reset :: "int option"
  retry_after :: "nat option"
  link_next :: "string option"
  resp_json :: body
  resp_text :: string

datatype reply = ConnectionError | Response response

text \<open>
  The network: the reply to the request for a prepared URL, which may depend on how
  many events the run has seen before it (so the same request can be answered
  differently later).
\<close>

type_synonym network = "nat \<Rightarrow> string \<Rightarrow> reply"

datatype exn = HTTPError int | DecodeError | IndexError

text \<open>
  The outcome of a call: it returns a value, raises an exception (a subclass of
  \<open>Exception\<close>), ends the process through \<open>sys.exit\<close> (which \<open>except Exception\<close> does
  not catch), or is still running when the fuel is used up.
\<close>

datatype 'a result = Return 'a globals | Raise exn globals | Exit globals | OutOfFuel

definition bind :: "'a result \<Rightarrow> ('a \<Rightarrow> globals \<Rightarrow> 'b result) \<Rightarrow> 'b result" where
  "bind m f =
     (case m of Return x s \<Rightarrow> f x s | Raise e s \<Rightarrow> Raise e s | Exit s \<Rightarrow> Exit s
      | OutOfFuel \<Rightarrow> OutOfFuel)"

definition final_state :: "'a result \<Rightarrow> globals option" where
  "final_state m =
     (case m of Return x s \<Rightarrow> Some s | Raise e s \<Rightarrow> Some s | Exit s \<Rightarrow> Some s
      | OutOfFuel \<Rightarrow> None)"

definition sleep :: "rat \<Rightarrow> globals \<Rightarrow> globals" where
  "sleep d s = s\<lparr>clock := clock s + d, trace := trace s @ [Sleep d]\<rparr>"

text \<open>Python's \<open>int\<close> of a float: truncation towards zero.\<close>

definition py_int :: "rat \<Rightarrow> int" where
  "py_int x = (if 0 \<le> x then \<lfloor>x\<rfloor> else \<lceil>x\<rceil>)"

section \<open>Inserting and looking up\<close>

definition insert_repo :: "repo_item \<Rightarrow> globals \<Rightarrow> globals" where
  "insert_repo repo s =
     s\<lparr>db := sql_insert_repo
               \<lparr>repo_id = item_id repo, repo_name = item_name repo,
                repo_full_name = item_full_name repo,
                repo_description = item_description repo, repo_url = item_url repo,
                repo_fork = (if item_fork repo then 1 else 0),
                repo_owner_id = item_owner_id repo,
                repo_owner_login = item_owner_login repo\<rparr> (db s),
       sam_repo := sam_repo s + 1,
       total_sam_repo := total_sam_repo s + 1\<rparr>"

definition insert_file :: "file_item \<Rightarrow> int \<Rightarrow> globals \<Rightarrow> int \<times> globals" where
  "insert_file file rid s =
     (let d = sql_insert_file (entry_name file) (entry_path file) (entry_sha file) rid (db s)
      in (last_insert_rowid d,
          s\<lparr>db := d, sam_file := sam_file s + 1, total_sam_file := total_sam_file s + 1\<rparr>))"

text \<open>\<open>str\<close> of a list of strings, as stored in the column \<open>parents\<close>.\<close>

fun py_str_items :: "string list \<Rightarrow> string" where
  "py_str_items [] = []"
| "py_str_items [x] = [CHR 0x27] @ x @ [CHR 0x27]"
| "py_str_items (x # y # ys) = [CHR 0x27] @ x @ [CHR 0x27] @ '', '' @ py_str_items (y # ys)"

definition py_str_list :: "string list \<Rightarrow> string" where
  "py_str_list xs = ''['' @ py_str_items xs @ '']''"

definition insert_commit :: "commit_item \<Rightarrow> response \<Rightarrow> string list \<Rightarrow> int \<Rightarrow> globals \<Rightarrow> globals" where
  "insert_commit commit content_res parents fid s =
     s\<lparr>db := sql_insert_comit (commit_sha commit) (commit_message commit)
               (int (length (resp_text content_res))) (commit_date commit)
               (resp_text content_res) (find_compiler_version (resp_text content_res))
               (py_str_list parents) fid (db s),
       sam_comit := sam_comit s + 1,
       total_sam_comit := total_sam_comit s + 1\<rparr>"

definition known_repo :: "repo_item \<Rightarrow> globals \<Rightarrow> bool" where
  "known_repo item s =
     (length (filter (\<lambda>x. repo_full_name x = item_full_name item \<and> repo_id x = item_id item)
        (tbl_repo (db s))) = 1)"

definition known_file :: "file_item \<Rightarrow> int \<Rightarrow> globals \<Rightarrow> bool" where
  "known_file item rid s =
     (length (filter (\<lambda>x. file_path x = entry_path item \<and> file_repo_id x = rid)
        (tbl_file (db s))) = 1)"

definition known_commit :: "commit_item \<Rightarrow> int \<Rightarrow> globals \<Rightarrow> bool" where
  "known_commit item fid s =
     (length (filter (\<lambda>x. comit_sha x = commit_sha item \<and> comit_file_id x = fid)
        (tbl_comit (db s))) = 1)"

section \<open>The API client\<close>

text \<open>
  The URL that \<open>requests\<close> prepares from a URL and its parameters (without the
  percent-encoding); with no parameters it is the URL itself. A response's \<open>url\<close> is
  the prepared URL of its request (redirects are not modelled).
\<close>

fun join_params :: "(string \<times> string) list \<Rightarrow> string" where
  "join_params [] = []"
| "join_params [(k, v)] = k @ ''='' @ v"
| "join_params ((k, v) # p # ps) = k @ ''='' @ v @ ''&'' @ join_params (p # ps)"

definition prepare :: "string \<Rightarrow> (string \<times> string) list \<Rightarrow> string" where
  "prepare url ps = (if ps = [] then url else url @ ''?'' @ join_params ps)"

text \<open>
  The handler of Ctrl-C, which the client also calls when the connection fails: it
  closes the database and the statistics file and exits.
\<close>

definition signal_handler :: "globals \<Rightarrow> 'a result" where
  "signal_handler s = Exit s"

text \<open>
  \<open>handle_log_response\<close> reads \<open>res.json()['message']\<close> of a response that is not 200,
  which raises when the body has no such key or is not JSON; otherwise it appends an
  entry to the log file and sleeps 1.5 seconds.
\<close>

definition handle_log_response :: "response \<Rightarrow> globals \<Rightarrow> unit result" where
  "handle_log_response res s =
     (if status_code res \<noteq> 200 \<and> (case resp_json res of ErrorMessage m \<Rightarrow> False | _ \<Rightarrow> True)
      then Raise DecodeError s
      else Return ()
             (sleep (3 / 2) (s\<lparr>trace := trace s @ [LogEntry (resp_url res) (status_code res)]\<rparr>)))"

definition raise_for_status :: "response \<Rightarrow> globals \<Rightarrow> unit result" where
  "raise_for_status res s =
     (if 400 \<le> status_code res \<and> status_code res < 600
      then Raise (HTTPError (status_code res)) s else Return () s)"

text \<open>
  The pause before each request of \<open>get\<close> when throttling is on: 60 seconds without a
  token, 0.72 seconds with one.
\<close>

definition throttle_sleep :: "args \<Rightarrow> globals \<Rightarrow> globals" where
  "throttle_sleep a s =
     (if throttle a then sleep (if no_token a then 60 else 72 / 100) s else s)"

text \<open>
  The seconds \<open>handle_rate_limit_error\<close> waits: from \<open>X-RateLimit-Reset\<close> when the
  response has it, \<open>max(0, int(int(t) - time.time()))\<close>; otherwise \<open>Retry-After\<close>, and 60
  when that is missing too.
\<close>

definition rate_limit_wait :: "response \<Rightarrow> globals \<Rightarrow> int" where
  "rate_limit_wait res s =
     (case ratelimit_reset res of
        Some t \<Rightarrow> max 0 (py_int (of_int t - clock s))
      | None \<Rightarrow> (case retry_after res of Some d \<Rightarrow> int d | None \<Rightarrow> 60))"

text \<open>The bookkeeping of \<open>get\<close> after a response: one more API call, and the used quota.\<close>

definition count_call :: "response \<Rightarrow> globals \<Rightarrow> globals" where
  "count_call res s =
     s\<lparr>api_calls := api_calls s + 1,
       rate_used := (case ratelimit_used res of Some u \<Rightarrow> u | None \<Rightarrow> 0)\<rparr>"

definition request_sent :: "string \<Rightarrow> globals \<Rightarrow> globals" where
  "request_sent u s = s\<lparr>trace := trace s @ [Request u]\<rparr>"

text \<open>
  \<open>get\<close> and \<open>handle_rate_limit_error\<close> call each other without a bound, so both
  take fuel: the number of requests \<open>get\<close> may still send.
\<close>

fun get :: "nat \<Rightarrow> network \<Rightarrow> args \<Rightarrow> string \<Rightarrow> (string \<times> string) list \<Rightarrow> globals \<Rightarrow> response result"
  and handle_rate_limit_error :: "nat \<Rightarrow> network \<Rightarrow> args \<Rightarrow> response \<Rightarrow> globals \<Rightarrow> response result"
where
  "get 0 net a url ps s = OutOfFuel"
| "get (Suc n) net a url ps s =
     (let s1 = throttle_sleep a s
      in case net (length (trace s1)) (prepare url ps) of
           ConnectionError \<Rightarrow> signal_handler (request_sent (prepare url ps) s1)
         | Response r \<Rightarrow>
             (let res = r\<lparr>resp_url := prepare url ps\<rparr>;
                  s2 = count_call res (request_sent (prepare url ps) s1)
              in if status_code res = 403 then handle_rate_limit_error n net a res s2
                 else bind (if status_code res \<noteq> 200 then handle_log_response res s2
                            else Return () s2)
                        (\<lambda>_ s3. bind (raise_for_status res s3) (\<lambda>_ s4. Return res s4))))"
| "handle_rate_limit_error n net a res s =
     get n net a (resp_url res) [] (sleep (of_int (rate_limit_wait res s)) s)"

text \<open>The raw-content endpoint: no throttling, no token, no retry on 403.\<close>

definition get_content :: "network \<Rightarrow> string \<Rightarrow> globals \<Rightarrow> response result" where
  "get_content net url s =
     (let s1 = request_sent url s
      in case net (length (trace s)) url of
           ConnectionError \<Rightarrow> signal_handler s1
         | Response r \<Rightarrow>
             (let res = r\<lparr>resp_url := url\<rparr>
              in bind (if status_code res \<noteq> 200 then handle_log_response res s1
                       else Return () s1)
                   (\<lambda>_ s2. bind (raise_for_status res s2) (\<lambda>_ s3. Return res s3))))"

text \<open>Decimal digits of an integer, for the query string.\<close>

function str_nat :: "nat \<Rightarrow> string" where
  "str_nat n =
     (if n < 10 then [char_of (48 + n)]
      else str_nat (n div 10) @ [char_of (48 + n mod 10)])"
  by pat_completeness auto
termination
  by (relation "measure id") auto

definition str_int :: "int \<Rightarrow> string" where
  "str_int i = (if i < 0 then ''-'' @ str_nat (nat (- i)) else str_nat (nat i))"

definition search :: "nat \<Rightarrow> network \<Rightarrow> args \<Rightarrow> int \<Rightarrow> int \<Rightarrow> string \<Rightarrow> string \<Rightarrow> globals \<Rightarrow> response result" where
  "search n net a lo hi order license s =
     (let q_fork = (if forks a then ''true'' else ''false'');
          q_license = (if license \<noteq> ''no'' then ''license:'' @ license else []);
          query = ''language:Solidity size:'' @ str_int lo @ ''..'' @ str_int hi
                    @ '' fork:'' @ q_fork @ '' '' @ q_license
      in get n net a ''https://api.github.com/search/repositories''
           [(''q'', query), (''sort'', ''updated''), (''order'', order), (''per_page'', ''100'')]
           (s\<lparr>searches := searches s @ [(lo, hi, order, license)]\<rparr>))"

section \<open>Downloading commits, files and repositories\<close>

text \<open>Reading a key of the decoded body; \<open>None\<close> is the exception Python raises.\<close>

definition total_count :: "response \<Rightarrow> int option" where
  "total_count res = (case resp_json res of SearchResults c items \<Rightarrow> Some c | _ \<Rightarrow> None)"

definition items_of :: "response \<Rightarrow> repo_item list option" where
  "items_of res = (case resp_json res of SearchResults c items \<Rightarrow> Some items | _ \<Rightarrow> None)"

definition tree_of :: "response \<Rightarrow> tree_entry list option" where
  "tree_of res = (case resp_json res of TreeListing t \<Rightarrow> Some t | _ \<Rightarrow> None)"

definition commits_of :: "response \<Rightarrow> commit_item list option" where
  "commits_of res = (case resp_json res of CommitList cs \<Rightarrow> Some cs | _ \<Rightarrow> None)"

text \<open>
  The loop of \<open>download_commits_from_page\<close> over the commits of a page. A failed
  download of the content (\<open>except Exception: continue\<close>) goes on with the next commit.
\<close>

fun commits_loop :: "network \<Rightarrow> string \<Rightarrow> string \<Rightarrow> int \<Rightarrow> commit_item list \<Rightarrow> globals \<Rightarrow> unit result" where
  "commits_loop net full_name path fid [] s = Return () s"
| "commits_loop net full_name path fid (commit # cs) s =
     (if \<not> known_commit commit fid s
      then (case get_content net
                   (''https://raw.githubusercontent.com/'' @ full_name @ ''/''
                      @ commit_sha commit @ ''/'' @ path) s of
              Raise e s1 \<Rightarrow> commits_loop net full_name path fid cs s1
            | Return content_res s1 \<Rightarrow>
                commits_loop net full_name path fid cs
                  (insert_commit commit content_res (commit_parents commit) fid s1)
            | Exit s1 \<Rightarrow> Exit s1
            | OutOfFuel \<Rightarrow> OutOfFuel)
      else commits_loop net full_name path fid cs s)"

definition download_commits_from_page ::
  "network \<Rightarrow> response \<Rightarrow> string \<Rightarrow> string \<Rightarrow> int \<Rightarrow> globals \<Rightarrow> unit result" where
  "download_commits_from_page net commits_res full_name path fid s =
     (case commits_of commits_res of
        None \<Rightarrow> Raise DecodeError s
      | Some cs \<Rightarrow> commits_loop net full_name path fid cs s)"

text \<open>The \<open>while\<close> loop of \<open>download_all_commits\<close> over the further pages.\<close>

fun commit_pages ::
  "nat \<Rightarrow> network \<Rightarrow> args \<Rightarrow> response \<Rightarrow> string \<Rightarrow> string \<Rightarrow> int \<Rightarrow> globals \<Rightarrow> unit result" where
  "commit_pages 0 net a commits_res full_name path fid s = OutOfFuel"
| "commit_pages (Suc n) net a commits_res full_name path fid s =
     (case link_next commits_res of
        None \<Rightarrow> Return () s
      | Some u \<Rightarrow>
          bind (get n net a u [] s)
            (\<lambda>res s1. bind (download_commits_from_page net res full_name path fid s1)
               (\<lambda>_ s2. commit_pages n net a res full_name path fid s2)))"

definition replace_hash :: "string \<Rightarrow> string" where
  "replace_hash u = concat (map (\<lambda>c. if c = CHR ''#'' then ''%23'' else [c]) u)"

definition download_all_commits ::
  "nat \<Rightarrow> network \<Rightarrow> args \<Rightarrow> repo_item \<Rightarrow> file_item \<Rightarrow> int \<Rightarrow> globals \<Rightarrow> unit result" where
  "download_all_commits n net a repo file fid s =
     (let commits_url =
            replace_hash (take (length (item_commits_url repo) - 6) (item_commits_url repo))
      in case get n net a commits_url [(''path'', entry_path file), (''per_page'', ''100'')] s of
           Raise e s1 \<Rightarrow> Return () s1
         | Return commits_res s1 \<Rightarrow>
             bind (download_commits_from_page net commits_res (item_full_name repo)
                     (entry_path file) fid s1)
               (\<lambda>_ s2. commit_pages n net a commits_res (item_full_name repo)
                          (entry_path file) fid s2)
         | Exit s1 \<Rightarrow> Exit s1
         | OutOfFuel \<Rightarrow> OutOfFuel)"

text \<open>The loop of \<open>download_repos_from_page\<close> over the entries of a repository's tree.\<close>

fun files_loop :: "nat \<Rightarrow> network \<Rightarrow> args \<Rightarrow> repo_item \<Rightarrow> tree_entry list \<Rightarrow> globals \<Rightarrow> unit result" where
  "files_loop n net a repo [] s = Return () s"
| "files_loop n net a repo (f # fs) s =
     (if entry_type f = ''blob'' \<and> is_sol_path (entry_path f)
      then (if \<not> known_file (with_name f) (item_id repo) s
            then (case insert_file (with_name f) (item_id repo) s of
                    (fid, s1) \<Rightarrow>
                      bind (download_all_commits n net a repo (with_name f) fid s1)
                        (\<lambda>_ s2. files_loop n net a repo fs s2))
            else files_loop n net a repo fs s)
      else files_loop n net a repo fs s)"

text \<open>
  The loop of \<open>download_repos_from_page\<close> over the repositories of a page. A failed
  request for the tree goes on with the next repository (\<open>continue\<close>, which also skips
  the test at the end of the loop body); the test at the end of the body returns as
  soon as the sample has reached the population.
\<close>

fun repos_loop :: "nat \<Rightarrow> network \<Rightarrow> args \<Rightarrow> repo_item list \<Rightarrow> globals \<Rightarrow> unit result" where
  "repos_loop n net a [] s = Return () s"
| "repos_loop n net a (repo # rest) s =
     (if \<not> known_repo repo s
      then (case get n net a
                   (''https://api.github.com/repos/'' @ item_full_name repo @ ''/git/trees/''
                      @ item_default_branch repo @ ''?recursive=1'') [] (insert_repo repo s) of
              Raise e s1 \<Rightarrow> repos_loop n net a rest s1
            | Return res s1 \<Rightarrow>
                (case tree_of res of
                   None \<Rightarrow> Raise DecodeError s1
                 | Some tree \<Rightarrow>
                     bind (files_loop n net a repo tree s1)
                       (\<lambda>_ s2. if sam_repo s2 \<ge> pop_repo s2 then Return () s2
                                else repos_loop n net a rest s2))
            | Exit s1 \<Rightarrow> Exit s1
            | OutOfFuel \<Rightarrow> OutOfFuel)
      else (if sam_repo s \<ge> pop_repo s then Return () s else repos_loop n net a rest s))"

definition download_repos_from_page :: "nat \<Rightarrow> network \<Rightarrow> args \<Rightarrow> response \<Rightarrow> globals \<Rightarrow> unit result" where
  "download_repos_from_page n net a res s =
     (case items_of res of
        None \<Rightarrow> Raise DecodeError s
      | Some items \<Rightarrow> repos_loop n net a items s)"

text \<open>
  The \<open>while\<close> loop of \<open>download_all_repos\<close>: while the page has a \<open>next\<close> link, get the
  next page, raise the population to its reading, download the page, and leave the
  loop when the sample has reached the population.
\<close>

fun pages_loop :: "nat \<Rightarrow> network \<Rightarrow> args \<Rightarrow> response \<Rightarrow> globals \<Rightarrow> unit result" where
  "pages_loop 0 net a res s = OutOfFuel"
| "pages_loop (Suc n) net a res s =
     (case link_next res of
        None \<Rightarrow> Return () s
      | Some u \<Rightarrow>
          bind (get n net a u [] s)
            (\<lambda>res' s1.
               case total_count res' of
                 None \<Rightarrow> Raise DecodeError s1
               | Some c \<Rightarrow>
                   bind (download_repos_from_page n net a res'
                           (s1\<lparr>pop_repo := max (pop_repo s1) (c + current_cumulative_pop s1)\<rparr>))
                     (\<lambda>_ s2. if sam_repo s2 \<ge> pop_repo s2 then Return () s2
                              else pages_loop n net a res' s2)))"

definition download_all_repos :: "nat \<Rightarrow> network \<Rightarrow> args \<Rightarrow> response \<Rightarrow> globals \<Rightarrow> unit result" where
  "download_all_repos n net a res s =
     bind (download_repos_from_page n net a res s) (\<lambda>_ s1. pages_loop n net a res s1)"

section \<open>Start, resume and the main loop\<close>

definition licenses :: "string list" where
  "licenses =
     [''apache-2.0'', ''agpl-3.0'', ''bsd-2-clause'', ''bsd-3-clause'', ''bsl-1.0'',
      ''cc0-1.0'', ''epl-2.0'', ''gpl-2.0'', ''gpl-3.0'', ''lgpl-2.1'', ''mit'',
      ''mpl-2.0'', ''unlicense'']"

text \<open>
  The global variables as the script initialises them, given the database file and
  the time at the start; then the totals are set to 0 before the statistics file is
  looked at.
\<close>

definition init_globals :: "args \<Rightarrow> database \<Rightarrow> rat \<Rightarrow> globals" where
  "init_globals a d now =
     \<lparr>strat_first = min_size a,
      strat_last = min (min_size a + stratum_size a - 1) (max_size a),
      pop_repo = - 1, sam_repo = - 1, sam_file = - 1, sam_comit = - 1,
      total_sam_repo = 0, total_sam_file = 0, total_sam_comit = 0,
      rate_used = 0, api_calls = 0, current_license = [], current_cumulative_pop = 0,
      db = d, stats = [], clock = now, trace = [], searches = []\<rparr>"

text \<open>
  The step to the next stratum. The same statements end the resume block and the body
  of the main loop.
\<close>

definition advance :: "args \<Rightarrow> globals \<Rightarrow> globals" where
  "advance a s =
     s\<lparr>strat_first := strat_first s + stratum_size a,
       strat_last := min (strat_last s + stratum_size a) (max_size a),
       pop_repo := - 1, sam_repo := - 1, sam_file := - 1, sam_comit := - 1\<rparr>"

text \<open>
  Replaying the rows of the statistics file (after its header; the cells already
  converted by \<open>int\<close>): each row overwrites the bounds and counters and adds its samples
  to the totals. A row with fewer than six cells raises \<open>IndexError\<close>.
\<close>

fun replay :: "int list list \<Rightarrow> globals \<Rightarrow> exn + globals" where
  "replay [] s = Inr s"
| "replay (row # rows) s =
     (if length row < 6 then Inl IndexError
      else replay rows
             (s\<lparr>strat_first := row ! 0, strat_last := row ! 1, pop_repo := row ! 2,
                sam_repo := row ! 3, sam_file := row ! 4, sam_comit := row ! 5,
                total_sam_repo := total_sam_repo s + row ! 3,
                total_sam_file := total_sam_file s + row ! 4,
                total_sam_comit := total_sam_comit s + row ! 5\<rparr>))"

definition resume :: "args \<Rightarrow> int list list \<Rightarrow> globals \<Rightarrow> exn + globals" where
  "resume a rows s =
     (case replay rows s of
        Inl e \<Rightarrow> Inl e
      | Inr s1 \<Rightarrow> Inr (if pop_repo s1 > - 1 then advance a s1 else s1))"

text \<open>
  The start of a run: \<open>None\<close> is a missing statistics file, \<open>Some rows\<close> a file with
  these rows after the header.
\<close>

definition startup :: "args \<Rightarrow> database \<Rightarrow> rat \<Rightarrow> int list list option \<Rightarrow> exn + globals" where
  "startup a d now file =
     (case file of
        None \<Rightarrow> Inr (init_globals a d now)
      | Some rows \<Rightarrow> resume a rows (init_globals a d now))"

text \<open>
  The body of the main loop without licence filter: the ascending search and its
  pages, and, when the population is above 1000 after them, the descending search and
  its pages.
\<close>

definition ascending_pass :: "nat \<Rightarrow> network \<Rightarrow> args \<Rightarrow> globals \<Rightarrow> unit result" where
  "ascending_pass n net a s =
     bind (search n net a (strat_first s) (strat_last s) ''asc'' ''no'' s)
       (\<lambda>res s1. case total_count res of
                    None \<Rightarrow> Raise DecodeError s1
                  | Some c \<Rightarrow> download_all_repos n net a res (s1\<lparr>pop_repo := c\<rparr>))"

definition descending_pass :: "nat \<Rightarrow> network \<Rightarrow> args \<Rightarrow> globals \<Rightarrow> unit result" where
  "descending_pass n net a s =
     bind (search n net a (strat_first s) (strat_last s) ''desc'' ''no'' s)
       (\<lambda>res s1. case total_count res of
                    None \<Rightarrow> Raise DecodeError s1
                  | Some pop2 \<Rightarrow>
                      download_all_repos n net a res (s1\<lparr>pop_repo := max (pop_repo s1) pop2\<rparr>))"

definition sample_unlicensed :: "nat \<Rightarrow> network \<Rightarrow> args \<Rightarrow> globals \<Rightarrow> unit result" where
  "sample_unlicensed n net a s =
     bind (ascending_pass n net a s)
       (\<lambda>_ s1. if pop_repo s1 > 1000 then descending_pass n net a s1 else Return () s1)"

text \<open>The body of the loop over the licences, for one licence.\<close>

definition license_ascending :: "nat \<Rightarrow> network \<Rightarrow> args \<Rightarrow> string \<Rightarrow> globals \<Rightarrow> unit result" where
  "license_ascending n net a lic s =
     bind (search n net a (strat_first s) (strat_last s) ''asc'' lic (s\<lparr>current_license := lic\<rparr>))
       (\<lambda>res s1. case total_count res of
                    None \<Rightarrow> Raise DecodeError (s1\<lparr>current_cumulative_pop := pop_repo s1\<rparr>)
                  | Some c \<Rightarrow>
                      download_all_repos n net a res
                        (s1\<lparr>current_cumulative_pop := pop_repo s1, pop_repo := pop_repo s1 + c\<rparr>))"

definition license_descending :: "nat \<Rightarrow> network \<Rightarrow> args \<Rightarrow> string \<Rightarrow> globals \<Rightarrow> unit result" where
  "license_descending n net a lic s =
     bind (search n net a (strat_first s) (strat_last s) ''desc'' lic s)
       (\<lambda>res s1. case total_count res of
                    None \<Rightarrow> Raise DecodeError s1
                  | Some c \<Rightarrow>
                      download_all_repos n net a res
                        (s1\<lparr>pop_repo := max (pop_repo s1) (c + current_cumulative_pop s1)\<rparr>))"

definition sample_license :: "nat \<Rightarrow> network \<Rightarrow> args \<Rightarrow> string \<Rightarrow> globals \<Rightarrow> unit result" where
  "sample_license n net a lic s =
     bind (license_ascending n net a lic s)
       (\<lambda>_ s1. if pop_repo s1 > 1000 then license_descending n net a lic s1 else Return () s1)"

fun sample_licensed :: "nat \<Rightarrow> network \<Rightarrow> args \<Rightarrow> string list \<Rightarrow> globals \<Rightarrow> unit result" where
  "sample_licensed n net a [] s = Return () s"
| "sample_licensed n net a (lic # lics) s =
     bind (sample_license n net a lic s) (\<lambda>_ s1. sample_licensed n net a lics s1)"

text \<open>
  The main loop: while the stratum starts within the maximum size, reset the counters,
  sample the stratum, append its row to the statistics file and advance.
\<close>

definition write_row :: "globals \<Rightarrow> globals" where
  "write_row s =
     s\<lparr>stats := stats s @
         [[strat_first s, strat_last s, pop_repo s, sam_repo s, sam_file s, sam_comit s]]\<rparr>"

fun main_loop :: "nat \<Rightarrow> network \<Rightarrow> args \<Rightarrow> globals \<Rightarrow> unit result" where
  "main_loop 0 net a s = OutOfFuel"
| "main_loop (Suc n) net a s =
     (if strat_first s \<le> max_size a
      then bind ((if \<not> licensed a then sample_unlicensed n net a
                  else sample_licensed n net a licenses)
                   (s\<lparr>pop_repo := 0, sam_repo := 0, sam_file := 0, sam_comit := 0\<rparr>))
             (\<lambda>_ s1. main_loop n net a (advance a (write_row s1)))
      else Return () s)"

section \<open>What a call leaves unchanged\<close>

text \<open>A property of the state that a call ends in, when it ends within the fuel.\<close>

definition ends_with :: "(globals \<Rightarrow> bool) \<Rightarrow> 'a result \<Rightarrow> bool" where
  "ends_with P m =
     (case m of Return x s \<Rightarrow> P s | Raise e s \<Rightarrow> P s | Exit s \<Rightarrow> P s | OutOfFuel \<Rightarrow> True)"

text \<open>The client changes the clock, the trace and its two counters only.\<close>

definition client_frame :: "globals \<Rightarrow> globals \<Rightarrow> bool" where
  "client_frame s s' =
     (s' = s\<lparr>clock := clock s', trace := trace s', api_calls := api_calls s',
              rate_used := rate_used s'\<rparr>)"

text \<open>
  Downloading changes neither the bounds of the stratum, nor its population, nor the
  offset of the licence, nor the list of searches, nor the statistics rows.
\<close>

definition crawl_frame :: "globals \<Rightarrow> globals \<Rightarrow> bool" where
  "crawl_frame s s' =
     (strat_first s' = strat_first s \<and> strat_last s' = strat_last s
      \<and> pop_repo s' = pop_repo s \<and> current_cumulative_pop s' = current_cumulative_pop s
      \<and> searches s' = searches s \<and> stats s' = stats s)"

text \<open>Following the pages can only raise the population.\<close>

definition pages_frame :: "globals \<Rightarrow> globals \<Rightarrow> bool" where
  "pages_frame s s' =
     (strat_first s' = strat_first s \<and> strat_last s' = strat_last s
      \<and> pop_repo s \<le> pop_repo s' \<and> current_cumulative_pop s' = current_cumulative_pop s
      \<and> searches s' = searches s \<and> stats s' = stats s)"

section \<open>What a run sends and reads\<close>

text \<open>The trace of a later state starts with the trace of an earlier one.\<close>

definition trace_grows :: "globals \<Rightarrow> globals \<Rightarrow> bool" where
  "trace_grows s s' = prefix (trace s) (trace s')"

text \<open>
  The prepared URL of the request that \<open>search\<close> sends for the sizes \<open>lo\<close> to \<open>hi\<close>, an
  order and a licence.
\<close>

definition search_url :: "args \<Rightarrow> int \<Rightarrow> int \<Rightarrow> string \<Rightarrow> string \<Rightarrow> string" where
  "search_url a lo hi order license =
     prepare ''https://api.github.com/search/repositories''
       [(''q'', ''language:Solidity size:'' @ str_int lo @ ''..'' @ str_int hi
                  @ '' fork:'' @ (if forks a then ''true'' else ''false'') @ '' ''
                  @ (if license \<noteq> ''no'' then ''license:'' @ license else [])),
        (''sort'', ''updated''), (''order'', order), (''per_page'', ''100'')]"

text \<open>
  From the state \<open>s\<close>, the next request was the one for the URL \<open>u\<close>, and the state
  \<open>s'\<close> is that of some moment after it: the trace of \<open>s'\<close> starts with the trace of
  \<open>s\<close>, the pause of the throttling, and the request for \<open>u\<close>.
\<close>

definition sent_first :: "args \<Rightarrow> string \<Rightarrow> globals \<Rightarrow> globals \<Rightarrow> bool" where
  "sent_first a u s s' = prefix (trace (throttle_sleep a s) @ [Request u]) (trace s')"

text \<open>
  The readings of the further pages: the \<open>total_count\<close> of each response that the
  \<open>while\<close> loop of \<open>download_all_repos\<close> receives, in order, until the loop ends.
\<close>

fun further_counts :: "nat \<Rightarrow> network \<Rightarrow> args \<Rightarrow> response \<Rightarrow> globals \<Rightarrow> int list" where
  "further_counts 0 net a res s = []"
| "further_counts (Suc n) net a res s =
     (case link_next res of
        None \<Rightarrow> []
      | Some u \<Rightarrow>
          (case get n net a u [] s of
             Return res' s1 \<Rightarrow>
               (case total_count res' of
                  None \<Rightarrow> []
                | Some c \<Rightarrow>
                    c # (case download_repos_from_page n net a res'
                                (s1\<lparr>pop_repo := max (pop_repo s1) (c + current_cumulative_pop s1)\<rparr>) of
                           Return x s2 \<Rightarrow>
                             if sam_repo s2 \<ge> pop_repo s2 then []
                             else further_counts n net a res' s2
                         | _ \<Rightarrow> []))
           | _ \<Rightarrow> []))"

text \<open>
  The readings of the further pages of a call of \<open>download_all_repos\<close>, which downloads
  the first page before it enters the loop.
\<close>

definition page_counts :: "nat \<Rightarrow> network \<Rightarrow> args \<Rightarrow> response \<Rightarrow> globals \<Rightarrow> int list" where
  "page_counts n net a res s =
     (case download_repos_from_page n net a res s of
        Return x s1 \<Rightarrow> further_counts n net a res s1
      | _ \<Rightarrow> [])"

section \<open>Example runs\<close>

text \<open>Arguments that pass the checks: sizes 1 to 7 in strata of width 5.\<close>

definition args0 :: args where
  "args0 = \<lparr>min_size = 1, max_size = 7, stratum_size = 5, throttle = True, forks = False,
             licensed = False, github_token = Some ''token''\<rparr>"

text \<open>The statistics rows that a complete run with these arguments leaves.\<close>

definition log0 :: "int list list" where
  "log0 = [[1, 5, 2, 2, 3, 4], [6, 7, 1, 1, 1, 1]]"

text \<open>The same arguments with a larger maximum size, to go on after that run.\<close>

definition args_wider :: args where
  "args_wider = args0\<lparr>max_size := 20\<rparr>"

text \<open>The globals at the start of a run on an empty database.\<close>

definition start0 :: globals where
  "start0 = init_globals args0 empty_db 0"

text \<open>A repository, and the same repository (by id) after it has moved to another owner.\<close>

definition repo1 :: repo_item where
  "repo1 =
     \<lparr>item_id = 7, item_name = ''token'', item_full_name = ''alice/token'',
      item_description = None, item_url = ''https://api.github.com/repos/alice/token'',
      item_fork = False, item_owner_id = 1, item_owner_login = ''alice'',
      item_default_branch = ''main'',
      item_commits_url = ''https://api.github.com/repos/alice/token/commits{/sha}''\<rparr>"

definition repo1_moved :: repo_item where
  "repo1_moved =
     repo1\<lparr>item_full_name := ''bob/token'', item_owner_id := 2, item_owner_login := ''bob'',
            item_url := ''https://api.github.com/repos/bob/token'',
            item_commits_url := ''https://api.github.com/repos/bob/token/commits{/sha}''\<rparr>"

definition entry1 :: tree_entry where
  "entry1 = \<lparr>entry_type = ''blob'', entry_path = ''contracts/Token.sol'', entry_sha = ''f00''\<rparr>"

definition commit1 :: commit_item where
  "commit1 =
     \<lparr>commit_sha = ''c0ffee'', commit_message = ''init'',
      commit_date = ''2022-01-01T00:00:00Z'', commit_parents = []\<rparr>"

text \<open>A response with status 200, no headers and no \<open>next\<close> link.\<close>

definition ok_response :: "body \<Rightarrow> string \<Rightarrow> response" where
  "ok_response b t =
     \<lparr>status_code = 200, resp_url = [], ratelimit_used = None, ratelimit_reset = None,
      retry_after = None, link_next = None, resp_json = b, resp_text = t\<rparr>"

definition content1 :: response where
  "content1 = ok_response NoJson ''pragma solidity ^0.8.10;''"

text \<open>A second repository with one Solidity file and two commits of it.\<close>

definition repo2 :: repo_item where
  "repo2 =
     \<lparr>item_id = 8, item_name = ''vault'', item_full_name = ''carol/vault'',
      item_description = Some ''a vault'', item_url = ''https://api.github.com/repos/carol/vault'',
      item_fork = False, item_owner_id = 3, item_owner_login = ''carol'',
      item_default_branch = ''main'',
      item_commits_url = ''https://api.github.com/repos/carol/vault/commits{/sha}''\<rparr>"

definition commit2 :: commit_item where
  "commit2 =
     \<lparr>commit_sha = ''decaf'', commit_message = ''fix'',
      commit_date = ''2022-02-01T00:00:00Z'', commit_parents = [''c0ffee'']\<rparr>"

text \<open>The same arguments without throttling, so that only the waits for the rate limit move the clock.\<close>

definition args_plain :: args where
  "args_plain = args0\<lparr>throttle := False\<rparr>"

text \<open>The URLs of the example runs, as \<open>get\<close> prepares them.\<close>

definition url_tree1 :: string where
  "url_tree1 = ''https://api.github.com/repos/alice/token/git/trees/main?recursive=1''"

definition url_tree2 :: string where
  "url_tree2 = ''https://api.github.com/repos/carol/vault/git/trees/main?recursive=1''"

definition url_page2 :: string where
  "url_page2 = ''https://api.github.com/search/repositories?page=2''"

definition url_asc_1_5 :: string where
  "url_asc_1_5 = ''https://api.github.com/search/repositories?q=language:Solidity size:1..5 fork:false &sort=updated&order=asc&per_page=100''"

definition url_desc_1_5 :: string where
  "url_desc_1_5 = ''https://api.github.com/search/repositories?q=language:Solidity size:1..5 fork:false &sort=updated&order=desc&per_page=100''"

definition url_asc_6_7 :: string where
  "url_asc_6_7 = ''https://api.github.com/search/repositories?q=language:Solidity size:6..7 fork:false &sort=updated&order=asc&per_page=100''"

definition url_asc_mit :: string where
  "url_asc_mit = ''https://api.github.com/search/repositories?q=language:Solidity size:1..5 fork:false license:mit&sort=updated&order=asc&per_page=100''"

definition url_desc_mit :: string where
  "url_desc_mit = ''https://api.github.com/search/repositories?q=language:Solidity size:1..5 fork:false license:mit&sort=updated&order=desc&per_page=100''"

text \<open>
  A rate-limited API: the first request is answered with 403 and a reset time of 110,
  every later one with an empty search result. The run starts at time 99.5.
\<close>

definition limited :: response where
  "limited = (ok_response (ErrorMessage ''API rate limit exceeded'') [])
     \<lparr>status_code := 403, ratelimit_reset := Some 110\<rparr>"

definition net_limited :: network where
  "net_limited k u =
     (if k = 0 then Response limited else Response (ok_response (SearchResults 0 []) []))"

definition waiting0 :: globals where
  "waiting0 = start0\<lparr>clock := 199 / 2\<rparr>"

text \<open>
  An API where the tree of the first repository and the content of the first commit
  cannot be fetched (404).
\<close>

definition not_found :: "body \<Rightarrow> response" where
  "not_found b = (ok_response b ''404: Not Found'')\<lparr>status_code := 404\<rparr>"

definition net_flaky :: network where
  "net_flaky k u =
     (if u = url_tree1 then Response (not_found (ErrorMessage ''Not Found''))
      else if u = url_tree2 then Response (ok_response (TreeListing [entry1]) [])
      else if u = ''https://api.github.com/repos/carol/vault/commits?path=contracts/Token.sol&per_page=100''
        then Response (ok_response (CommitList [commit1, commit2]) [])
      else if u = ''https://raw.githubusercontent.com/carol/vault/c0ffee/contracts/Token.sol''
        then Response (not_found NoJson)
      else if u = ''https://raw.githubusercontent.com/carol/vault/decaf/contracts/Token.sol''
        then Response (ok_response NoJson ''pragma solidity ^0.8.10;'')
      else ConnectionError)"

text \<open>The globals in a stratum with a population of 5 and nothing sampled yet.\<close>

definition sampling0 :: globals where
  "sampling0 = start0\<lparr>pop_repo := 5, sam_repo := 0, sam_file := 0, sam_comit := 0\<rparr>"

text \<open>
  An API whose search for the sizes 1 to 5 reports a population of 1 on a first page
  that holds one repository and links to a second page.
\<close>

definition page1 :: response where
  "page1 = (ok_response (SearchResults 1 [repo1]) [])\<lparr>link_next := Some url_page2\<rparr>"

definition net_pages :: network where
  "net_pages k u =
     (if u = url_asc_1_5 then Response page1
      else if u = url_page2 then Response (ok_response (SearchResults 1 [repo2]) [])
      else if u = url_tree1 then Response (ok_response (TreeListing []) [])
      else if u = url_tree2 then Response (ok_response (TreeListing []) [])
      else if u = url_asc_6_7 then Response (ok_response (SearchResults 0 []) [])
      else ConnectionError)"

definition sampling_one :: globals where
  "sampling_one = start0\<lparr>pop_repo := 1, sam_repo := 0, sam_file := 0, sam_comit := 0\<rparr>"

text \<open>A page of search results without items: its population and its \<open>next\<close> link.\<close>

definition big_page :: "int \<Rightarrow> string option \<Rightarrow> response" where
  "big_page c nxt = (ok_response (SearchResults c []) [])\<lparr>link_next := nxt\<rparr>"

text \<open>
  An API whose ascending search reports 1001 repositories and whose descending search
  reports 1003 on both of its pages.
\<close>

definition net_stable :: network where
  "net_stable k u =
     (if u = url_asc_1_5 then Response (big_page 1001 None)
      else if u = url_desc_1_5 then Response (big_page 1003 (Some url_page2))
      else if u = url_page2 then Response (big_page 1003 None)
      else ConnectionError)"

text \<open>
  An API whose ascending and descending searches both report 1001 repositories, and
  the second page of the descending search 1005.
\<close>

definition net_unstable :: network where
  "net_unstable k u =
     (if u = url_asc_1_5 then Response (big_page 1001 None)
      else if u = url_desc_1_5 then Response (big_page 1001 (Some url_page2))
      else if u = url_page2 then Response (big_page 1005 None)
      else if u = url_asc_6_7 then Response (big_page 0 None)
      else ConnectionError)"

text \<open>An API for the licence \<open>mit\<close>: 1200 repositories ascending, 1100 descending.\<close>

definition net_mit :: network where
  "net_mit k u =
     (if u = url_asc_mit then Response (big_page 1200 None)
      else if u = url_desc_mit then Response (big_page 1100 (Some url_page2))
      else if u = url_page2 then Response (big_page 1100 None)
      else ConnectionError)"

text \<open>
  The globals at the start of a stratum; after the ascending pass of the example; and,
  with a licence filter, before and after the ascending pass for \<open>mit\<close> when the earlier
  licences have a population of 7.
\<close>

definition sampling1 :: globals where
  "sampling1 = start0\<lparr>pop_repo := 0, sam_repo := 0, sam_file := 0, sam_comit := 0\<rparr>"

definition desc0 :: globals where
  "desc0 = sampling1\<lparr>pop_repo := 1001\<rparr>"

definition sampling_mit :: globals where
  "sampling_mit = sampling1\<lparr>pop_repo := 7, sam_repo := 7\<rparr>"

definition desc_mit :: globals where
  "desc_mit = sampling_mit\<lparr>pop_repo := 1207, current_cumulative_pop := 7,
     current_license := ''mit''\<rparr>"

text \<open>An API for the licence \<open>mit\<close> with 3 repositories on a single page.\<close>

definition net_few :: network where
  "net_few k u =
     (if u = url_asc_mit then Response (big_page 3 None)
      else ConnectionError)"

section \<open>Properties of the stratum planner\<close>

lemma strata_loop_correct:
  assumes w: "1 \<le> w"
  shows "l = min (f + w - 1) mx \<Longrightarrow>
    \<exists>rows. strata_loop w mx f l acc = Some (acc @ rows)
      \<and> (mx < f \<longrightarrow> rows = [])
      \<and> (f \<le> mx \<longrightarrow> rows \<noteq> [] \<and> hd rows = (f, l) \<and> snd (last rows) = mx)
      \<and> contiguous rows \<and> non_overlapping rows \<and> list_all (\<lambda>r. f \<le> fst r) rows"
proof (induction "nat (mx + 1 - f)" arbitrary: f l acc rule: less_induct)
  case less
  show ?case
  proof (cases "f \<le> mx")
    case False
    then have "strata_loop w mx f l acc = Some (acc @ [])"
      by (subst strata_loop.simps) simp
    with False show ?thesis by auto
  next
    case True
    let ?f = "f + w" and ?l = "min (l + w) mx"
    have l': "?l = min (?f + w - 1) mx" using less.prems w by auto
    have dec: "nat (mx + 1 - ?f) < nat (mx + 1 - f)" using True w by simp
    from less.hyps[OF dec l', of "acc @ [(f, l)]"]
    obtain rows where r: "strata_loop w mx ?f ?l (acc @ [(f, l)]) = Some ((acc @ [(f, l)]) @ rows)"
      and e: "mx < ?f \<longrightarrow> rows = []"
      and n: "?f \<le> mx \<longrightarrow> rows \<noteq> [] \<and> hd rows = (?f, ?l) \<and> snd (last rows) = mx"
      and c: "contiguous rows" and o: "non_overlapping rows"
      and a: "list_all (\<lambda>r. ?f \<le> fst r) rows"
      by blast
    have eq: "strata_loop w mx f l acc = Some (acc @ (f, l) # rows)"
      using True r by (subst strata_loop.simps) simp
    have fl: "f \<le> l" "l < ?f" using less.prems True w by auto
    have lastmx: "snd (last ((f, l) # rows)) = mx"
    proof (cases "?f \<le> mx")
      case True with n show ?thesis by simp
    next
      case False
      with e have "rows = []" by simp
      moreover have "l = mx" using False less.prems by auto
      ultimately show ?thesis by simp
    qed
    have cont: "contiguous ((f, l) # rows)"
    proof (cases rows)
      case Nil then show ?thesis by simp
    next
      case (Cons r rs)
      with e have le: "?f \<le> mx" by auto
      with n Cons have "r = (?f, ?l)" by simp
      moreover have "l = f + w - 1" using le less.prems by auto
      ultimately show ?thesis using c Cons by simp
    qed
    have nov: "non_overlapping ((f, l) # rows)"
      using o a fl by (auto simp: list_all_iff)
    have all: "list_all (\<lambda>r. f \<le> fst r) ((f, l) # rows)"
      using a w by (auto simp: list_all_iff)
    show ?thesis using eq lastmx cont nov all True by auto
  qed
qed

text \<open>Strata that do not overlap have no size in common.\<close>

lemma non_overlapping_disjoint:
  "non_overlapping rows \<Longrightarrow> i < j \<Longrightarrow> j < length rows \<Longrightarrow>
     in_stratum x (rows ! i) \<Longrightarrow> \<not> in_stratum x (rows ! j)"
proof (induction rows arbitrary: i j)
  case Nil
  then show ?case by simp
next
  case (Cons r rs)
  from Cons.prems(2) obtain j' where j: "j = Suc j'" by (cases j) auto
  show ?case
  proof (cases i)
    case 0
    from Cons.prems(3) j have "rs ! j' \<in> set rs" by simp
    with Cons.prems(1) have "snd r < fst (rs ! j')" by (simp add: list_all_iff)
    with Cons.prems(4) 0 j show ?thesis by (simp add: in_stratum_def)
  next
    case (Suc i')
    with Cons.prems j have "\<not> in_stratum x (rs ! j')"
      by (intro Cons.IH[of i' j']) simp_all
    with j show ?thesis by simp
  qed
qed

text \<open>
  C1. For all sizes \<open>1 \<le> min_size \<le> max_size\<close> and every width of at least 1, the loop
  over the strata ends, and the strata it visits are contiguous (each lower bound is
  the previous upper bound plus one), do not overlap, start at \<open>min_size\<close> and end
  with the upper bound \<open>max_size\<close>.
\<close>

theorem stratum_coverage:
  assumes "1 \<le> mn" and "mn \<le> mx" and "1 \<le> w"
  shows "\<exists>rows. strata mn mx w = Some rows \<and> rows \<noteq> [] \<and> fst (hd rows) = mn
           \<and> snd (last rows) = mx \<and> contiguous rows \<and> non_overlapping rows"
  using strata_loop_correct[OF assms(3), of "min (mn + w - 1) mx" mn mx "[]"] assms(2)
  by (auto simp: strata_def)

theorem stratum_coverage_witness:
  "(1::int) \<le> 1 \<and> (1::int) \<le> 7 \<and> (1::int) \<le> 5 \<and>
   (\<exists>rows. strata 1 7 5 = Some rows \<and> rows \<noteq> [] \<and> fst (hd rows) = 1
           \<and> snd (last rows) = 7 \<and> contiguous rows \<and> non_overlapping rows)"
  using stratum_coverage[of 1 7 5] by simp

lemma strata_example: "strata 1 7 5 = Some [(1, 5), (6, 7)]"
  by (simp add: strata_def strata_loop.simps)

section \<open>Properties of the database operations\<close>

lemma sql_insert_repo_twice:
  "repo_id r' = repo_id r \<Longrightarrow> sql_insert_repo r' (sql_insert_repo r d) = sql_insert_repo r d"
  by (auto simp: sql_insert_repo_def list_ex_iff)

lemma sql_insert_file_twice:
  "sql_insert_file nm' pth sh' rid (sql_insert_file nm pth sh rid d) = sql_insert_file nm pth sh rid d"
  by (auto simp: sql_insert_file_def list_ex_iff Let_def)

lemma sql_insert_comit_twice:
  "sql_insert_comit sh m' z' c' t' v' p' fid (sql_insert_comit sh m z c t v p fid d)
     = sql_insert_comit sh m z c t v p fid d"
  by (auto simp: sql_insert_comit_def list_ex_iff Let_def)

text \<open>
  C2. Inserting a repository, a file or a commit a second time under the same natural
  key (the id of a repository; path and repo_id of a file; sha and file_id of a commit)
  leaves the database as the first insert left it, and so the number of rows of its
  table unchanged, whatever the other columns of the second insert are.
\<close>

theorem idempotent_ingestion:
  "(item_id r' = item_id r \<longrightarrow>
      db (insert_repo r' (insert_repo r s)) = db (insert_repo r s)
      \<and> length (tbl_repo (db (insert_repo r' (insert_repo r s))))
          = length (tbl_repo (db (insert_repo r s))))
   \<and> (entry_path f' = entry_path f \<longrightarrow>
      db (snd (insert_file f' rid (snd (insert_file f rid s)))) = db (snd (insert_file f rid s))
      \<and> length (tbl_file (db (snd (insert_file f' rid (snd (insert_file f rid s))))))
          = length (tbl_file (db (snd (insert_file f rid s)))))
   \<and> (commit_sha c' = commit_sha c \<longrightarrow>
      db (insert_commit c' res' ps' fid (insert_commit c res ps fid s))
        = db (insert_commit c res ps fid s)
      \<and> length (tbl_comit (db (insert_commit c' res' ps' fid (insert_commit c res ps fid s))))
          = length (tbl_comit (db (insert_commit c res ps fid s))))"
proof -
  have r: "item_id r' = item_id r \<Longrightarrow>
      db (insert_repo r' (insert_repo r s)) = db (insert_repo r s)"
    by (simp add: insert_repo_def sql_insert_repo_twice)
  have f: "entry_path f' = entry_path f \<Longrightarrow>
      db (snd (insert_file f' rid (snd (insert_file f rid s)))) = db (snd (insert_file f rid s))"
    by (simp add: insert_file_def Let_def sql_insert_file_twice)
  have c: "commit_sha c' = commit_sha c \<Longrightarrow>
      db (insert_commit c' res' ps' fid (insert_commit c res ps fid s))
        = db (insert_commit c res ps fid s)"
    by (simp add: insert_commit_def sql_insert_comit_twice)
  show ?thesis using r f c by simp
qed

theorem idempotent_ingestion_witness:
  "item_id repo1_moved = item_id repo1
   \<and> length (tbl_repo (db (insert_repo repo1 start0))) = 1
   \<and> length (tbl_repo (db (insert_repo repo1_moved (insert_repo repo1 start0)))) = 1
   \<and> length (tbl_file (db (snd (insert_file (with_name entry1) 7 start0)))) = 1
   \<and> length (tbl_file (db (snd (insert_file (with_name entry1) 7
        (snd (insert_file (with_name entry1) 7 start0)))))) = 1
   \<and> length (tbl_comit (db (insert_commit commit1 content1 [] 1 start0))) = 1
   \<and> length (tbl_comit (db (insert_commit commit1 content1 [] 1
        (insert_commit commit1 content1 [] 1 start0)))) = 1"
proof -
  have id: "item_id repo1_moved = item_id repo1"
    by (simp add: repo1_moved_def)
  have r: "length (tbl_repo (db (insert_repo repo1 start0))) = 1"
    by (simp add: insert_repo_def sql_insert_repo_def start0_def init_globals_def empty_db_def)
  have f: "length (tbl_file (db (snd (insert_file (with_name entry1) 7 start0)))) = 1"
    by (simp add: insert_file_def sql_insert_file_def start0_def init_globals_def empty_db_def
        Let_def)
  have c: "length (tbl_comit (db (insert_commit commit1 content1 [] 1 start0))) = 1"
    by (simp add: insert_commit_def sql_insert_comit_def start0_def init_globals_def
        empty_db_def Let_def)
  show ?thesis
    using idempotent_ingestion[where r' = repo1_moved and r = repo1 and s = start0
        and f' = "with_name entry1" and f = "with_name entry1" and rid = 7
        and c' = commit1 and c = commit1 and res' = content1 and res = content1
        and ps' = "[]" and ps = "[]" and fid = 1] id r f c
    by simp
qed

lemma known_repo_other_name:
  assumes d: "distinct (map repo_id (tbl_repo (db s)))"
    and x: "x \<in> set (tbl_repo (db s))" "repo_id x = item_id r" "repo_full_name x \<noteq> item_full_name r"
  shows "\<not> known_repo r s"
proof -
  have "filter (\<lambda>y. repo_full_name y = item_full_name r \<and> repo_id y = item_id r) (tbl_repo (db s)) = []"
  proof (rule ccontr)
    assume "\<not> ?thesis"
    then obtain y where y: "y \<in> set (tbl_repo (db s))" "repo_full_name y = item_full_name r" "repo_id y = item_id r"
      by (auto simp: filter_empty_conv)
    with x d have "x = y" by (metis distinct_map inj_onD)
    with x y show False by simp
  qed
  then show ?thesis by (simp add: known_repo_def)
qed

text \<open>
  C10. Every call of \<open>insert_repo\<close>, \<open>insert_file\<close> and \<open>insert_commit\<close> adds one to its
  counter of the stratum and to its total, whether or not a row is added. When the
  database holds a repository with the id of a found repository under another full
  name, \<open>known_repo\<close> is false and \<open>insert_repo\<close> adds no row but still counts, so the
  sample count grows by more than the table does.
\<close>

theorem counters_increment:
  "sam_repo (insert_repo r s) = sam_repo s + 1
   \<and> total_sam_repo (insert_repo r s) = total_sam_repo s + 1
   \<and> sam_file (snd (insert_file f rid s)) = sam_file s + 1
   \<and> total_sam_file (snd (insert_file f rid s)) = total_sam_file s + 1
   \<and> sam_comit (insert_commit c res ps fid s) = sam_comit s + 1
   \<and> total_sam_comit (insert_commit c res ps fid s) = total_sam_comit s + 1
   \<and> (distinct (map repo_id (tbl_repo (db s)))
        \<and> list_ex (\<lambda>x. repo_id x = item_id r \<and> repo_full_name x \<noteq> item_full_name r)
             (tbl_repo (db s))
      \<longrightarrow> \<not> known_repo r s
          \<and> tbl_repo (db (insert_repo r s)) = tbl_repo (db s)
          \<and> sam_repo (insert_repo r s) - sam_repo s
              > int (length (tbl_repo (db (insert_repo r s)))) - int (length (tbl_repo (db s))))"
proof -
  have cnt: "sam_repo (insert_repo r s) = sam_repo s + 1"
    "total_sam_repo (insert_repo r s) = total_sam_repo s + 1"
    "sam_file (snd (insert_file f rid s)) = sam_file s + 1"
    "total_sam_file (snd (insert_file f rid s)) = total_sam_file s + 1"
    "sam_comit (insert_commit c res ps fid s) = sam_comit s + 1"
    "total_sam_comit (insert_commit c res ps fid s) = total_sam_comit s + 1"
    by (simp_all add: insert_repo_def insert_file_def insert_commit_def Let_def)
  have scen: "\<not> known_repo r s \<and> tbl_repo (db (insert_repo r s)) = tbl_repo (db s)"
    if d: "distinct (map repo_id (tbl_repo (db s)))"
      and e: "list_ex (\<lambda>x. repo_id x = item_id r \<and> repo_full_name x \<noteq> item_full_name r)
             (tbl_repo (db s))"
  proof -
    from e obtain x where x: "x \<in> set (tbl_repo (db s))" "repo_id x = item_id r"
        "repo_full_name x \<noteq> item_full_name r"
      by (auto simp: list_ex_iff)
    have "\<not> known_repo r s" using known_repo_other_name[OF d x] .
    moreover have "tbl_repo (db (insert_repo r s)) = tbl_repo (db s)"
      using x by (auto simp: insert_repo_def sql_insert_repo_def list_ex_iff)
    ultimately show ?thesis by simp
  qed
  show ?thesis using cnt scen by auto
qed

theorem counters_increment_witness:
  "distinct (map repo_id (tbl_repo (db (insert_repo repo1 start0))))
   \<and> list_ex (\<lambda>x. repo_id x = item_id repo1_moved \<and> repo_full_name x \<noteq> item_full_name repo1_moved)
        (tbl_repo (db (insert_repo repo1 start0)))
   \<and> \<not> known_repo repo1_moved (insert_repo repo1 start0)
   \<and> length (tbl_repo (db (insert_repo repo1 start0))) = 1
   \<and> length (tbl_repo (db (insert_repo repo1_moved (insert_repo repo1 start0)))) = 1
   \<and> sam_repo (insert_repo repo1 start0) = 0
   \<and> sam_repo (insert_repo repo1_moved (insert_repo repo1 start0)) = 1"
proof -
  have t: "tbl_repo (db (insert_repo repo1 start0)) =
      [\<lparr>repo_id = 7, repo_name = ''token'', repo_full_name = ''alice/token'',
        repo_description = None, repo_url = ''https://api.github.com/repos/alice/token'',
        repo_fork = 0, repo_owner_id = 1, repo_owner_login = ''alice''\<rparr>]"
    by (simp add: insert_repo_def sql_insert_repo_def start0_def init_globals_def empty_db_def
        repo1_def)
  have s: "sam_repo (insert_repo repo1 start0) = 0"
    by (simp add: insert_repo_def start0_def init_globals_def)
  have d: "distinct (map repo_id (tbl_repo (db (insert_repo repo1 start0))))"
    by (simp add: t)
  have e: "list_ex (\<lambda>x. repo_id x = item_id repo1_moved \<and> repo_full_name x \<noteq> item_full_name repo1_moved)
        (tbl_repo (db (insert_repo repo1 start0)))"
    by (simp only: t) (simp add: repo1_moved_def repo1_def)
  show ?thesis
    using counters_increment[where r = repo1_moved and s = "insert_repo repo1 start0"] d e s t
    by simp
qed

section \<open>Properties of the version pattern\<close>

lemma rx_literal_fail: "\<not> prefix l t \<Longrightarrow> rx_match (Literal l # rs) t g = None"
  by simp

lemma re_search_skip:
  "(\<And>i. i < length pre \<Longrightarrow> rx_match rs (drop i (pre @ t)) [] = None)
   \<Longrightarrow> re_search rs (pre @ t) = re_search rs t"
proof (induction pre)
  case Nil
  then show ?case by simp
next
  case (Cons c pre)
  have h: "rx_match rs ((c # pre) @ t) [] = None" using Cons.prems[of 0] by simp
  have "\<And>i. i < length pre \<Longrightarrow> rx_match rs (drop i (pre @ t)) [] = None"
    using Cons.prems[of "Suc _"] by simp
  then have "re_search rs (pre @ t) = re_search rs t" by (rule Cons.IH)
  with h show ?case by simp
qed

lemma re_search_hit: "rx_match rs t [] = Some g \<Longrightarrow> re_search rs t = Some g"
  by (cases t) simp_all

lemma re_search_miss:
  "(\<And>i. i \<le> length t \<Longrightarrow> rx_match rs (drop i t) [] = None) \<Longrightarrow> re_search rs t = None"
proof (induction t)
  case Nil
  then show ?case using Nil[of 0] by simp
next
  case (Cons c t)
  have h: "rx_match rs (c # t) [] = None" using Cons.prems[of 0] by simp
  have "\<And>i. i \<le> length t \<Longrightarrow> rx_match rs (drop i t) [] = None"
    using Cons.prems[of "Suc _"] by simp
  then have "re_search rs t = None" by (rule Cons.IH)
  with h show ?case by simp
qed

lemma leftmost_match:
  assumes "\<And>i. i < length pre \<Longrightarrow> rx_match pragma_re (drop i (pre @ t)) [] = None"
    and "rx_match pragma_re t [] = Some g"
  shows "find_compiler_version (pre @ t) = g"
proof -
  have "re_search pragma_re (pre @ t) = re_search pragma_re t"
    using assms(1) by (rule re_search_skip)
  also have "\<dots> = Some g" using assms(2) by (rule re_search_hit)
  finally show ?thesis by (simp only: find_compiler_version_def option.case)
qed

lemma pragma_here:
  "rx_match pragma_re (''pragma solidity ^0.8.10;'' @ suf) [] = Some ''0.8.10''"
  by (simp add: pragma_re_def is_digit_def is_space_def)

lemma no_pragma_no_match:
  assumes "\<not> sublist ''pragma solidity'' t"
  shows "rx_match pragma_re (drop i t) [] = None"
proof -
  have "\<not> prefix ''pragma solidity '' (drop i t)"
  proof
    assume "prefix ''pragma solidity '' (drop i t)"
    then have "prefix (''pragma solidity'' @ '' '') (drop i t)" by simp
    then have "prefix ''pragma solidity'' (drop i t)" using append_prefixD by blast
    then have "sublist ''pragma solidity'' (drop i t)" by (rule prefix_imp_sublist)
    moreover have "sublist (drop i t) t" by (rule suffix_imp_sublist) (rule suffix_drop)
    ultimately have "sublist ''pragma solidity'' t" by (rule sublist_order.order.trans)
    with assms show False by simp
  qed
  then show ?thesis unfolding pragma_re_def by (rule rx_literal_fail)
qed

text \<open>
  C9, as amended. \<open>find_compiler_version\<close> returns the version captured by the leftmost
  match of the pattern: when the pattern matches at a position of the text and at no
  position before it, the result is the group of that match. So for a text that contains
  \<^verbatim>\<open>pragma solidity ^0.8.10;\<close> with no match of the pattern starting before it, the
  result is \<^verbatim>\<open>0.8.10\<close>. When the pattern matches nowhere, and so for every text that
  does not contain \<^verbatim>\<open>pragma solidity\<close>, the result is the empty string.
\<close>

theorem version_extraction:
  "((\<forall>i<length pre. rx_match pragma_re (drop i (pre @ t)) [] = None)
      \<and> rx_match pragma_re t [] = Some g
      \<longrightarrow> find_compiler_version (pre @ t) = g)
   \<and> ((\<forall>i<length pre.
          rx_match pragma_re (drop i (pre @ ''pragma solidity ^0.8.10;'' @ suf)) [] = None)
      \<longrightarrow> find_compiler_version (pre @ ''pragma solidity ^0.8.10;'' @ suf) = ''0.8.10'')
   \<and> ((\<forall>i\<le>length t. rx_match pragma_re (drop i t) [] = None)
      \<longrightarrow> find_compiler_version t = [])
   \<and> (\<not> sublist ''pragma solidity'' t \<longrightarrow> find_compiler_version t = [])"
proof (intro conjI impI)
  assume "(\<forall>i<length pre. rx_match pragma_re (drop i (pre @ t)) [] = None)
      \<and> rx_match pragma_re t [] = Some g"
  then show "find_compiler_version (pre @ t) = g"
    by (intro leftmost_match) blast+
next
  assume "\<forall>i<length pre.
      rx_match pragma_re (drop i (pre @ ''pragma solidity ^0.8.10;'' @ suf)) [] = None"
  then show "find_compiler_version (pre @ ''pragma solidity ^0.8.10;'' @ suf) = ''0.8.10''"
    by (intro leftmost_match pragma_here) blast
next
  assume "\<forall>i\<le>length t. rx_match pragma_re (drop i t) [] = None"
  then have "re_search pragma_re t = None" by (intro re_search_miss) blast
  then show "find_compiler_version t = []" by (simp add: find_compiler_version_def)
next
  assume "\<not> sublist ''pragma solidity'' t"
  then have "\<And>i. i \<le> length t \<Longrightarrow> rx_match pragma_re (drop i t) [] = None"
    by (rule no_pragma_no_match)
  then have "re_search pragma_re t = None" by (rule re_search_miss)
  then show "find_compiler_version t = []" by (simp add: find_compiler_version_def)
qed

text \<open>
  A file with two version pragmas contains \<^verbatim>\<open>pragma solidity ^0.8.10;\<close>, and its
  extracted version is that of the first pragma.
\<close>

theorem version_first_pragma_counterexample:
  "sublist ''pragma solidity ^0.8.10;'' ''pragma solidity 0.4.0; pragma solidity ^0.8.10;''
   \<and> find_compiler_version ''pragma solidity 0.4.0; pragma solidity ^0.8.10;'' = ''0.4.0''
   \<and> find_compiler_version ''pragma solidity 0.4.0; pragma solidity ^0.8.10;'' \<noteq> ''0.8.10''"
proof -
  have "''pragma solidity 0.4.0; pragma solidity ^0.8.10;''
      = ''pragma solidity 0.4.0; '' @ ''pragma solidity ^0.8.10;'' @ []" by simp
  then have "sublist ''pragma solidity ^0.8.10;'' ''pragma solidity 0.4.0; pragma solidity ^0.8.10;''"
    unfolding sublist_def by blast
  moreover have "find_compiler_version ''pragma solidity 0.4.0; pragma solidity ^0.8.10;'' = ''0.4.0''"
    by (simp add: find_compiler_version_def pragma_re_def is_digit_def is_space_def)
  ultimately show ?thesis by simp
qed

text \<open>
  The pragma after a comment; after an earlier \<^verbatim>\<open>pragma solidity \<close> that the pattern
  does not match; a text with two pragmas of different versions, and one with two pragmas
  of the same version; a pragma that the pattern does not match; and a text without a
  pragma.
\<close>

theorem version_extraction_witness:
  "find_compiler_version (''// SPDX'' @ ''pragma solidity ^0.8.10;'' @ '' contract A {}'') = ''0.8.10''
   \<and> find_compiler_version (''pragma solidity ^x; '' @ ''pragma solidity ^0.8.10;'' @ []) = ''0.8.10''
   \<and> find_compiler_version (''/* a */ '' @ ''pragma solidity 0.4.0; pragma solidity ^0.8.10;'')
       = ''0.4.0''
   \<and> find_compiler_version (''// '' @ ''pragma solidity 0.8.10; pragma solidity ^0.8.10;'')
       = ''0.8.10''
   \<and> find_compiler_version ''pragma solidity ^x;'' = []
   \<and> find_compiler_version ''contract A {}'' = []"
proof -
  have a: "\<forall>i<length ''// SPDX''. rx_match pragma_re
      (drop i (''// SPDX'' @ ''pragma solidity ^0.8.10;'' @ '' contract A {}'')) [] = None"
    by (simp add: less_Suc_eq all_conj_distrib pragma_re_def)
  have b: "\<forall>i<length ''pragma solidity ^x; ''. rx_match pragma_re
      (drop i (''pragma solidity ^x; '' @ ''pragma solidity ^0.8.10;'' @ [])) [] = None"
    by (simp add: less_Suc_eq all_conj_distrib pragma_re_def is_digit_def is_space_def)
  have c: "\<forall>i<length ''/* a */ ''. rx_match pragma_re
      (drop i (''/* a */ '' @ ''pragma solidity 0.4.0; pragma solidity ^0.8.10;'')) [] = None"
    by (simp add: less_Suc_eq all_conj_distrib pragma_re_def)
  have d: "rx_match pragma_re ''pragma solidity 0.4.0; pragma solidity ^0.8.10;'' []
      = Some ''0.4.0''"
    by (simp add: pragma_re_def is_digit_def is_space_def)
  have c': "\<forall>i<length ''// ''. rx_match pragma_re
      (drop i (''// '' @ ''pragma solidity 0.8.10; pragma solidity ^0.8.10;'')) [] = None"
    by (simp add: less_Suc_eq all_conj_distrib pragma_re_def)
  have d': "rx_match pragma_re ''pragma solidity 0.8.10; pragma solidity ^0.8.10;'' []
      = Some ''0.8.10''"
    by (simp add: pragma_re_def is_digit_def is_space_def)
  have e: "\<not> sublist ''pragma solidity'' ''contract A {}''"
    by (simp add: sublist_Cons_right)
  note th = version_extraction[where pre = "''// SPDX''" and suf = "'' contract A {}''"
      and t = "''contract A {}''"]
  note th2 = version_extraction[where pre = "''pragma solidity ^x; ''" and suf = "[]"]
  note th3 = version_extraction[where pre = "''/* a */ ''"
      and t = "''pragma solidity 0.4.0; pragma solidity ^0.8.10;''" and g = "''0.4.0''"]
  have 1: "find_compiler_version (''// SPDX'' @ ''pragma solidity ^0.8.10;'' @ '' contract A {}'')
      = ''0.8.10''"
    using th a by blast
  have 2: "find_compiler_version (''pragma solidity ^x; '' @ ''pragma solidity ^0.8.10;'' @ [])
      = ''0.8.10''"
    using th2 b by blast
  have 3: "find_compiler_version (''/* a */ '' @ ''pragma solidity 0.4.0; pragma solidity ^0.8.10;'')
      = ''0.4.0''"
    using th3 c d by blast
  note th4 = version_extraction[where pre = "''// ''"
      and t = "''pragma solidity 0.8.10; pragma solidity ^0.8.10;''" and g = "''0.8.10''"]
  have 4: "find_compiler_version (''// '' @ ''pragma solidity 0.8.10; pragma solidity ^0.8.10;'')
      = ''0.8.10''"
    using th4 c' d' by blast
  have f: "\<forall>i\<le>length ''pragma solidity ^x;''.
      rx_match pragma_re (drop i ''pragma solidity ^x;'') [] = None"
    by (simp add: le_Suc_eq all_conj_distrib pragma_re_def is_digit_def is_space_def)
  note th5 = version_extraction[where t = "''pragma solidity ^x;''"]
  have 5: "find_compiler_version ''pragma solidity ^x;'' = []"
    using th5 f by blast
  have 6: "find_compiler_version ''contract A {}'' = []"
    using th e by blast
  show ?thesis using 1 2 3 4 5 6 by (intro conjI)
qed

section \<open>Properties of the resume block\<close>

lemma replay_ok:
  "(\<And>row. row \<in> set rows \<Longrightarrow> 6 \<le> length row) \<Longrightarrow>
   \<exists>s'. replay rows s = Inr s'
     \<and> (rows \<noteq> [] \<longrightarrow> strat_first s' = last rows ! 0 \<and> strat_last s' = last rows ! 1
            \<and> pop_repo s' = last rows ! 2)
     \<and> total_sam_repo s' = total_sam_repo s + sum_list (map (\<lambda>r. r ! 3) rows)
     \<and> total_sam_file s' = total_sam_file s + sum_list (map (\<lambda>r. r ! 4) rows)
     \<and> total_sam_comit s' = total_sam_comit s + sum_list (map (\<lambda>r. r ! 5) rows)"
proof (induction rows arbitrary: s)
  case Nil
  then show ?case by simp
next
  case (Cons row rows)
  let ?s = "s\<lparr>strat_first := row ! 0, strat_last := row ! 1, pop_repo := row ! 2,
                sam_repo := row ! 3, sam_file := row ! 4, sam_comit := row ! 5,
                total_sam_repo := total_sam_repo s + row ! 3,
                total_sam_file := total_sam_file s + row ! 4,
                total_sam_comit := total_sam_comit s + row ! 5\<rparr>"
  have len: "\<not> length row < 6" using Cons.prems[of row] by simp
  have "\<And>r. r \<in> set rows \<Longrightarrow> 6 \<le> length r" using Cons.prems by simp
  from Cons.IH[OF this, of ?s] obtain s' where s': "replay rows ?s = Inr s'"
    and b: "rows \<noteq> [] \<longrightarrow> strat_first s' = last rows ! 0 \<and> strat_last s' = last rows ! 1
            \<and> pop_repo s' = last rows ! 2"
    and t: "total_sam_repo s' = total_sam_repo ?s + sum_list (map (\<lambda>r. r ! 3) rows)"
      "total_sam_file s' = total_sam_file ?s + sum_list (map (\<lambda>r. r ! 4) rows)"
      "total_sam_comit s' = total_sam_comit ?s + sum_list (map (\<lambda>r. r ! 5) rows)"
    by blast
  have eq: "replay (row # rows) s = Inr s'" using len s' by simp
  have nil: "rows = [] \<Longrightarrow> s' = ?s" using s' by simp
  show ?case
  proof (cases "rows = []")
    case True
    with nil eq show ?thesis by simp
  next
    case False
    with eq b t show ?thesis by simp
  qed
qed

text \<open>
  C3, as amended. When the statistics file has at least one row, every row has its six
  cells and the last row's population is above -1, the resume block adds every row's
  samples to the totals and sets the next stratum to start at the last row's lower
  bound plus the stratum width, and to end at the last row's upper bound plus the
  width, clamped to the maximum size. The start is the last row's upper bound plus one
  when that row has the full width; so it is for a row that the planner wrote with the
  same width and maximum size, as long as a further stratum remains.
\<close>

theorem resume_next_stratum:
  assumes "rows \<noteq> []" and "\<forall>row\<in>set rows. 6 \<le> length row" and "last rows ! 2 > - 1"
  shows "\<exists>s'. resume a rows s = Inr s'
     \<and> total_sam_repo s' = total_sam_repo s + sum_list (map (\<lambda>r. r ! 3) rows)
     \<and> total_sam_file s' = total_sam_file s + sum_list (map (\<lambda>r. r ! 4) rows)
     \<and> total_sam_comit s' = total_sam_comit s + sum_list (map (\<lambda>r. r ! 5) rows)
     \<and> strat_first s' = last rows ! 0 + stratum_size a
     \<and> strat_last s' = min (last rows ! 1 + stratum_size a) (max_size a)
     \<and> (last rows ! 1 = last rows ! 0 + stratum_size a - 1 \<longrightarrow> strat_first s' = last rows ! 1 + 1)
     \<and> (last rows ! 1 = min (last rows ! 0 + stratum_size a - 1) (max_size a)
          \<and> strat_first s' \<le> max_size a \<longrightarrow> strat_first s' = last rows ! 1 + 1)"
proof -
  from replay_ok[of rows s] assms(2) obtain s1 where r: "replay rows s = Inr s1"
    and b: "strat_first s1 = last rows ! 0" "strat_last s1 = last rows ! 1"
       "pop_repo s1 = last rows ! 2"
    and t: "total_sam_repo s1 = total_sam_repo s + sum_list (map (\<lambda>r. r ! 3) rows)"
      "total_sam_file s1 = total_sam_file s + sum_list (map (\<lambda>r. r ! 4) rows)"
      "total_sam_comit s1 = total_sam_comit s + sum_list (map (\<lambda>r. r ! 5) rows)"
    using assms(1) by blast
  have "resume a rows s = Inr (advance a s1)"
    using r b assms(3) by (simp add: resume_def)
  then show ?thesis using b t by (auto simp: advance_def)
qed

theorem resume_next_stratum_witness:
  "[[1, 5, 2, 2, 3, 4 :: int]] \<noteq> [] \<and> last [[1, 5, 2, 2, 3, 4 :: int]] ! 2 > - 1
   \<and> (\<exists>s'. resume args0 [[1, 5, 2, 2, 3, 4]] (init_globals args0 empty_db 0) = Inr s'
        \<and> strat_first s' = 6 \<and> strat_last s' = 7 \<and> total_sam_repo s' = 2
        \<and> total_sam_file s' = 3 \<and> total_sam_comit s' = 4)"
  using resume_next_stratum[of "[[1, 5, 2, 2, 3, 4]]" args0 "init_globals args0 empty_db 0"]
  by (auto simp add: args0_def init_globals_def)

text \<open>
  After a complete run with sizes 1 to 7 in strata of width 5, the last row is the
  clamped stratum 6 to 7. Resuming with the same arguments sets the next lower bound to
  11, not to 8 (and the loop ends). Resuming with the maximum size raised to 20 makes
  the next stratum 11 to 12, which the loop samples; the sizes 8 to 10 are left out.
\<close>

theorem resume_after_clamped_counterexample:
  "validate args0 = None
   \<and> strata (min_size args0) (max_size args0) (stratum_size args0) = Some [(1, 5), (6, 7)]
   \<and> last log0 ! 1 + 1 = 8
   \<and> map_sum id (\<lambda>s. (strat_first s, strat_last s))
        (resume args0 log0 (init_globals args0 empty_db 0)) = Inr (11, 7)
   \<and> validate args_wider = None
   \<and> map_sum id (\<lambda>s. (strat_first s, strat_last s, strat_first s \<le> max_size args_wider))
        (resume args_wider log0 (init_globals args_wider empty_db 0)) = Inr (11, 12, True)"
  by (simp add: resume_def args0_def args_wider_def log0_def init_globals_def advance_def
      validate_def MAX_FILE_SIZE_def strata_def strata_loop.simps)

section \<open>Properties of the API client\<close>

lemma ends_with_bind:
  assumes "ends_with P m" and "\<And>x s. m = Return x s \<Longrightarrow> ends_with P (f x s)"
  shows "ends_with P (bind m f)"
  using assms by (cases m) (auto simp: ends_with_def bind_def)

lemma ends_with_mono:
  assumes "ends_with P m" and "\<And>s. P s \<Longrightarrow> Q s"
  shows "ends_with Q m"
  using assms by (cases m) (auto simp: ends_with_def)

lemma ends_with_simps [simp]:
  "ends_with P (Return x s) = P s" "ends_with P (Raise e s) = P s"
  "ends_with P (Exit s) = P s" "ends_with P OutOfFuel = True"
  by (simp_all add: ends_with_def)

lemma client_frame_refl [simp]: "client_frame s s"
  by (simp add: client_frame_def)

lemma client_frame_iff:
  "client_frame s s' =
     (strat_first s' = strat_first s \<and> strat_last s' = strat_last s
      \<and> pop_repo s' = pop_repo s \<and> sam_repo s' = sam_repo s \<and> sam_file s' = sam_file s
      \<and> sam_comit s' = sam_comit s \<and> total_sam_repo s' = total_sam_repo s
      \<and> total_sam_file s' = total_sam_file s \<and> total_sam_comit s' = total_sam_comit s
      \<and> current_license s' = current_license s
      \<and> current_cumulative_pop s' = current_cumulative_pop s \<and> db s' = db s
      \<and> stats s' = stats s \<and> searches s' = searches s)"
  by (cases s; cases s') (auto simp: client_frame_def)

lemma client_frame_trans: "client_frame s s1 \<Longrightarrow> client_frame s1 s2 \<Longrightarrow> client_frame s s2"
  by (simp add: client_frame_iff)

lemma client_frame_sleep [simp]: "client_frame s (sleep d s)"
  by (simp add: client_frame_iff sleep_def)

lemma client_frame_steps [simp]:
  "client_frame s (throttle_sleep a s)" "client_frame s (request_sent u s)"
  "client_frame s (count_call r s)"
  by (simp_all add: client_frame_iff throttle_sleep_def request_sent_def count_call_def sleep_def)

lemma handle_log_response_frame: "ends_with (client_frame s) (handle_log_response res s)"
  by (simp add: handle_log_response_def client_frame_iff sleep_def)

lemma raise_for_status_frame: "ends_with (client_frame s) (raise_for_status res s)"
  by (simp add: raise_for_status_def)

lemma ends_with_trans:
  assumes "client_frame s s1" and "ends_with (client_frame s1) m"
  shows "ends_with (client_frame s) m"
  using assms(2) by (rule ends_with_mono) (rule client_frame_trans[OF assms(1)])

lemma finish_frame:
  "ends_with (client_frame s)
     (bind (if status_code res \<noteq> 200 then handle_log_response res s else Return () s)
        (\<lambda>_ s3. bind (raise_for_status res s3) (\<lambda>_ s4. Return res s4)))"
proof (rule ends_with_bind)
  show "ends_with (client_frame s)
      (if status_code res \<noteq> 200 then handle_log_response res s else Return () s)"
    by (simp add: handle_log_response_frame)
next
  fix x s3
  assume "(if status_code res \<noteq> 200 then handle_log_response res s else Return () s) = Return x s3"
  then have "ends_with (client_frame s) (Return x s3 :: unit result)"
    by (metis handle_log_response_frame client_frame_refl ends_with_simps(1))
  then have f: "client_frame s s3" by simp
  have "ends_with (client_frame s3) (bind (raise_for_status res s3) (\<lambda>_ s4. Return res s4))"
    by (rule ends_with_bind) (simp_all add: raise_for_status_frame raise_for_status_def split: if_splits)
  with f show "ends_with (client_frame s) (bind (raise_for_status res s3) (\<lambda>_ s4. Return res s4))"
    by (rule ends_with_trans)
qed

lemma get_frame:
  "ends_with (client_frame s) (get n net a url ps s)"
  and "ends_with (client_frame s) (handle_rate_limit_error n net a res s)"
proof (induction n net a url ps s and n net a res s rule: get_handle_rate_limit_error.induct)
  case (1 net a url ps s)
  then show ?case by simp
next
  case (2 n net a url ps s)
  let ?s1 = "throttle_sleep a s"
  let ?u = "prepare url ps"
  show ?case
  proof (cases "net (length (trace ?s1)) ?u")
    case ConnectionError
    then show ?thesis
      by (simp add: signal_handler_def client_frame_iff throttle_sleep_def request_sent_def sleep_def)
  next
    case (Response r)
    let ?res = "r\<lparr>resp_url := ?u\<rparr>"
    let ?s2 = "count_call ?res (request_sent ?u ?s1)"
    have f2: "client_frame s ?s2"
      by (simp add: client_frame_iff throttle_sleep_def request_sent_def sleep_def count_call_def)
    show ?thesis
    proof (cases "status_code r = 403")
      case True
      have "ends_with (client_frame ?s2) (handle_rate_limit_error n net a ?res ?s2)"
        using "2.IH"[OF refl Response refl refl] True by simp
      with f2 have "ends_with (client_frame s) (handle_rate_limit_error n net a ?res ?s2)"
        by (rule ends_with_trans)
      with Response True show ?thesis by (simp add: Let_def)
    next
      case False
      have "ends_with (client_frame s)
        (bind (if status_code ?res \<noteq> 200 then handle_log_response ?res ?s2 else Return () ?s2)
          (\<lambda>_ s3. bind (raise_for_status ?res s3) (\<lambda>_ s4. Return ?res s4)))"
        using f2 finish_frame by (rule ends_with_trans)
      with Response False show ?thesis by (simp add: Let_def)
    qed
  qed
next
  case (3 n net a res s)
  have "ends_with (client_frame (sleep (of_int (rate_limit_wait res s)) s))
      (get n net a (resp_url res) [] (sleep (of_int (rate_limit_wait res s)) s))"
    using 3 by simp
  then have "ends_with (client_frame s)
      (get n net a (resp_url res) [] (sleep (of_int (rate_limit_wait res s)) s))"
    by (rule ends_with_trans[rotated]) simp
  then show ?case by simp
qed

lemma prepare_again: "prepare (prepare url ps) [] = prepare url ps"
  by (simp add: prepare_def)

lemma max_py_int: "max 0 (py_int x) = \<lfloor>max 0 x\<rfloor>"
proof (cases "0 \<le> x")
  case True
  then show ?thesis by (simp add: py_int_def max_def)
next
  case False
  then have "\<lceil>x\<rceil> \<le> 0" by (simp add: ceiling_le_zero)
  moreover have "max 0 x = 0" using False by (simp add: max_def)
  ultimately show ?thesis using False by (simp add: py_int_def)
qed

lemma rate_limit_wait_url [simp]: "rate_limit_wait (r\<lparr>resp_url := u\<rparr>) s = rate_limit_wait r s"
  by (simp add: rate_limit_wait_def split: option.splits)

lemma finish_no_403:
  assumes "status_code res \<noteq> 403"
  shows "bind (if status_code res \<noteq> 200 then handle_log_response res s else Return () s)
        (\<lambda>_ s3. bind (raise_for_status res s3) (\<lambda>_ s4. Return res s4)) \<noteq> Raise (HTTPError 403) s'"
  using assms
  by (auto simp: bind_def handle_log_response_def raise_for_status_def split: if_splits)

lemma get_no_403:
  "get n net a url ps s \<noteq> Raise (HTTPError 403) s'"
  and "handle_rate_limit_error n net a res s \<noteq> Raise (HTTPError 403) s'"
proof (induction n net a url ps s and n net a res s arbitrary: s' and s'
    rule: get_handle_rate_limit_error.induct)
  case (1 net a url ps s)
  then show ?case by simp
next
  case (2 n net a url ps s)
  let ?s1 = "throttle_sleep a s"
  let ?u = "prepare url ps"
  show ?case
  proof (cases "net (length (trace ?s1)) ?u")
    case ConnectionError
    then show ?thesis by (simp add: signal_handler_def)
  next
    case (Response r)
    let ?res = "r\<lparr>resp_url := ?u\<rparr>"
    let ?s2 = "count_call ?res (request_sent ?u ?s1)"
    show ?thesis
    proof (cases "status_code r = 403")
      case True
      have "handle_rate_limit_error n net a ?res ?s2 \<noteq> Raise (HTTPError 403) s'"
        using "2.IH"[OF refl Response refl refl] True by simp
      with Response True show ?thesis by (simp add: Let_def)
    next
      case False
      then have "status_code ?res \<noteq> 403" by simp
      from finish_no_403[OF this, of ?s2 s'] Response False show ?thesis
        by (simp add: Let_def)
    qed
  qed
next
  case (3 n net a res s)
  then show ?case by simp
qed

text \<open>
  C6, as amended. When \<open>get\<close> receives a response with status 403, it waits and calls
  itself again for the prepared URL of the same request, with no further parameters
  (which prepares to the same URL). The wait is a whole number of seconds: with the header
  \<open>X-RateLimit-Reset\<close> it is \<open>max(0, reset - now)\<close> rounded down; otherwise the value
  of \<open>Retry-After\<close>; otherwise 60. No call of \<open>get\<close> raises the HTTP error 403.
\<close>

theorem rate_limit_retry:
  assumes "net (length (trace (throttle_sleep a s))) (prepare url ps) = Response r"
    and "status_code r = 403"
    and "s2 = count_call r (request_sent (prepare url ps) (throttle_sleep a s))"
  shows "get (Suc n) net a url ps s
           = get n net a (prepare url ps) [] (sleep (of_int (rate_limit_wait r s2)) s2)
     \<and> prepare (prepare url ps) [] = prepare url ps
     \<and> rate_limit_wait r s2 =
         (case ratelimit_reset r of
            Some t \<Rightarrow> \<lfloor>max 0 (of_int t - clock s2)\<rfloor>
          | None \<Rightarrow> (case retry_after r of Some d \<Rightarrow> int d | None \<Rightarrow> 60))
     \<and> (\<forall>k u q s0 s'. get k net a u q s0 \<noteq> Raise (HTTPError 403) s')"
proof -
  have c: "count_call (r\<lparr>resp_url := prepare url ps\<rparr>) = count_call r"
    by (rule ext) (simp add: count_call_def)
  have "get (Suc n) net a url ps s
           = get n net a (prepare url ps) [] (sleep (of_int (rate_limit_wait r s2)) s2)"
    using assms by (simp add: Let_def c)
  moreover have "rate_limit_wait r s2 =
         (case ratelimit_reset r of
            Some t \<Rightarrow> \<lfloor>max 0 (of_int t - clock s2)\<rfloor>
          | None \<Rightarrow> (case retry_after r of Some d \<Rightarrow> int d | None \<Rightarrow> 60))"
    by (simp add: rate_limit_wait_def max_py_int split: option.splits)
  ultimately show ?thesis using get_no_403(1) by (simp add: prepare_again)
qed

theorem rate_limit_retry_witness:
  "net_limited 0 ''https://api.github.com/rate_limit'' = Response limited
   \<and> status_code limited = 403
   \<and> rate_limit_wait limited
        (count_call limited (request_sent ''https://api.github.com/rate_limit'' waiting0)) = 10
   \<and> get (Suc (Suc 0)) net_limited args_plain ''https://api.github.com/rate_limit'' [] waiting0
       = get (Suc 0) net_limited args_plain ''https://api.github.com/rate_limit'' []
           (sleep 10 (count_call limited
              (request_sent ''https://api.github.com/rate_limit'' waiting0)))"
proof -
  let ?u = "''https://api.github.com/rate_limit''"
  have t: "throttle_sleep args_plain waiting0 = waiting0"
    by (simp add: throttle_sleep_def args_plain_def)
  have p: "prepare ?u [] = ?u" by (simp add: prepare_def)
  have tr: "length (trace waiting0) = 0"
    by (simp add: waiting0_def start0_def init_globals_def)
  have n: "net_limited (length (trace (throttle_sleep args_plain waiting0))) (prepare ?u [])
      = Response limited"
    by (simp add: t tr net_limited_def)
  have c: "status_code limited = 403" by (simp add: limited_def)
  have w: "rate_limit_wait limited (count_call limited (request_sent ?u waiting0)) = 10"
    by code_simp
  have n0: "net_limited 0 ?u = Response limited" by (simp add: net_limited_def)
  from rate_limit_retry[where net = net_limited and a = args_plain and s = waiting0
      and url = ?u and ps = "[]" and r = limited and n = "Suc 0"
      and ?s2.0 = "count_call limited (request_sent (prepare ?u [])
        (throttle_sleep args_plain waiting0))", OF n c refl]
  have "get (Suc (Suc 0)) net_limited args_plain ?u [] waiting0
       = get (Suc 0) net_limited args_plain ?u []
           (sleep (of_int (rate_limit_wait limited (count_call limited (request_sent ?u waiting0))))
              (count_call limited (request_sent ?u waiting0)))"
    by (simp only: t p)
  then show ?thesis using n0 c w by simp
qed

text \<open>
  With a reset time of 110 read at time 99.5, the client sleeps 10 seconds, not 10.5, and
  sends the request again at time 109.5, before the reset.
\<close>

theorem rate_limit_wait_truncated_counterexample:
  "rate_limit_wait limited
      (count_call limited (request_sent ''https://api.github.com/rate_limit'' waiting0)) = 10
   \<and> max 0 (of_int 110
        - clock (count_call limited (request_sent ''https://api.github.com/rate_limit'' waiting0)))
       = (21 / 2 :: rat)
   \<and> map_option trace (final_state
        (get 2 net_limited args_plain ''https://api.github.com/rate_limit'' [] waiting0))
       = Some [Request ''https://api.github.com/rate_limit'', Sleep 10,
               Request ''https://api.github.com/rate_limit'']
   \<and> map_option clock (final_state
        (get 2 net_limited args_plain ''https://api.github.com/rate_limit'' [] waiting0))
       = Some (219 / 2)"
  by code_simp

lemma sql_insert_repo_has: "list_ex (\<lambda>x. repo_id x = repo_id r) (tbl_repo (sql_insert_repo r d))"
  by (auto simp: sql_insert_repo_def list_ex_iff)

lemma client_frame_db: "client_frame s s' \<Longrightarrow> db s' = db s"
  by (simp add: client_frame_iff)

lemma get_content_frame: "ends_with (client_frame s) (get_content net u s)"
proof (cases "net (length (trace s)) u")
  case ConnectionError
  then show ?thesis by (simp add: get_content_def signal_handler_def)
next
  case (Response r)
  have "ends_with (client_frame s)
        (bind (if status_code (r\<lparr>resp_url := u\<rparr>) \<noteq> 200
               then handle_log_response (r\<lparr>resp_url := u\<rparr>) (request_sent u s)
               else Return () (request_sent u s))
          (\<lambda>_ s3. bind (raise_for_status (r\<lparr>resp_url := u\<rparr>) s3) (\<lambda>_ s4. Return (r\<lparr>resp_url := u\<rparr>) s4)))"
    by (rule ends_with_trans[OF _ finish_frame]) simp
  with Response show ?thesis by (simp add: get_content_def Let_def)
qed

text \<open>
  C7. When the request for the tree of a repository that is not yet known raises an
  exception, the repository stays inserted and the loop goes on with the next repository
  of the page, from the state the failed request left. When the request for the content
  of a commit that is not yet known raises an exception, the database is unchanged and
  the loop goes on with the next commit of the file. (A failed connection is not an
  exception of this kind: it ends the run.)
\<close>

theorem per_item_failure:
  "(\<not> known_repo repo s
     \<and> get n net a (''https://api.github.com/repos/'' @ item_full_name repo @ ''/git/trees/''
                      @ item_default_branch repo @ ''?recursive=1'') [] (insert_repo repo s)
         = Raise e s1
     \<longrightarrow> repos_loop n net a (repo # rest) s = repos_loop n net a rest s1
       \<and> db s1 = db (insert_repo repo s)
       \<and> list_ex (\<lambda>x. repo_id x = item_id repo) (tbl_repo (db s1)))
   \<and> (\<not> known_commit commit fid s
     \<and> get_content net (''https://raw.githubusercontent.com/'' @ full_name @ ''/''
                      @ commit_sha commit @ ''/'' @ path) s = Raise e' s2
     \<longrightarrow> commits_loop net full_name path fid (commit # cs) s
           = commits_loop net full_name path fid cs s2
       \<and> db s2 = db s)"
proof (intro conjI impI)
  let ?u = "''https://api.github.com/repos/'' @ item_full_name repo @ ''/git/trees/''
                      @ item_default_branch repo @ ''?recursive=1''"
  assume h: "\<not> known_repo repo s \<and> get n net a ?u [] (insert_repo repo s) = Raise e s1"
  then show "repos_loop n net a (repo # rest) s = repos_loop n net a rest s1" by simp
  have "ends_with (client_frame (insert_repo repo s)) (get n net a ?u [] (insert_repo repo s))"
    by (rule get_frame)
  with h have "client_frame (insert_repo repo s) s1" by simp
  then show d: "db s1 = db (insert_repo repo s)" by (rule client_frame_db)
  show "list_ex (\<lambda>x. repo_id x = item_id repo) (tbl_repo (db s1))"
    using sql_insert_repo_has[of "\<lparr>repo_id = item_id repo, repo_name = item_name repo,
                repo_full_name = item_full_name repo,
                repo_description = item_description repo, repo_url = item_url repo,
                repo_fork = (if item_fork repo then 1 else 0),
                repo_owner_id = item_owner_id repo,
                repo_owner_login = item_owner_login repo\<rparr>" "db s"]
    by (simp add: d insert_repo_def)
next
  let ?u = "''https://raw.githubusercontent.com/'' @ full_name @ ''/''
                      @ commit_sha commit @ ''/'' @ path"
  assume h: "\<not> known_commit commit fid s \<and> get_content net ?u s = Raise e' s2"
  then show "commits_loop net full_name path fid (commit # cs) s
           = commits_loop net full_name path fid cs s2" by simp
  have "ends_with (client_frame s) (get_content net ?u s)" by (rule get_content_frame)
  with h have "client_frame s s2" by simp
  then show "db s2 = db s" by (rule client_frame_db)
qed

theorem per_item_failure_witness:
  "\<not> known_repo repo1 sampling0
   \<and> final_state (get (Suc 0) net_flaky args_plain url_tree1 [] (insert_repo repo1 sampling0)) \<noteq> None
   \<and> repos_loop (Suc 0) net_flaky args_plain [repo1, repo2] sampling0
       = repos_loop (Suc 0) net_flaky args_plain [repo2]
           (the (final_state (get (Suc 0) net_flaky args_plain url_tree1 []
              (insert_repo repo1 sampling0))))
   \<and> map_option (\<lambda>s. map repo_id (tbl_repo (db s)))
        (final_state (repos_loop (Suc 0) net_flaky args_plain [repo1, repo2] sampling0))
       = Some [7, 8]
   \<and> \<not> known_commit commit1 1 sampling0
   \<and> commits_loop net_flaky ''carol/vault'' ''contracts/Token.sol'' 1 [commit1, commit2] sampling0
       = commits_loop net_flaky ''carol/vault'' ''contracts/Token.sol'' 1 [commit2]
           (the (final_state (get_content net_flaky
              ''https://raw.githubusercontent.com/carol/vault/c0ffee/contracts/Token.sol''
              sampling0)))
   \<and> map_option (\<lambda>s. map comit_sha (tbl_comit (db s)))
        (final_state (commits_loop net_flaky ''carol/vault'' ''contracts/Token.sol'' 1
           [commit1, commit2] sampling0))
       = Some [''decaf'']"
proof -
  let ?tree = "''https://api.github.com/repos/'' @ item_full_name repo1 @ ''/git/trees/''
                      @ item_default_branch repo1 @ ''?recursive=1''"
  let ?raw = "''https://raw.githubusercontent.com/'' @ ''carol/vault'' @ ''/''
                      @ commit_sha commit1 @ ''/'' @ ''contracts/Token.sol''"
  have u: "?tree = url_tree1" by (simp add: repo1_def url_tree1_def)
  have v: "?raw = ''https://raw.githubusercontent.com/carol/vault/c0ffee/contracts/Token.sol''"
    by (simp add: commit1_def)
  have k: "\<not> known_repo repo1 sampling0" by code_simp
  have kc: "\<not> known_commit commit1 1 sampling0" by code_simp
  have "case get (Suc 0) net_flaky args_plain url_tree1 [] (insert_repo repo1 sampling0) of
          Raise e s1 \<Rightarrow> True | _ \<Rightarrow> False"
    by code_simp
  then obtain e s1 where g: "get (Suc 0) net_flaky args_plain url_tree1 []
      (insert_repo repo1 sampling0) = Raise e s1"
    by (auto split: result.splits)
  have "case get_content net_flaky
          ''https://raw.githubusercontent.com/carol/vault/c0ffee/contracts/Token.sol'' sampling0 of
          Raise e s1 \<Rightarrow> True | _ \<Rightarrow> False"
    by code_simp
  then obtain e' s2 where c: "get_content net_flaky
      ''https://raw.githubusercontent.com/carol/vault/c0ffee/contracts/Token.sol'' sampling0
        = Raise e' s2"
    by (auto split: result.splits)
  note th = per_item_failure[where repo = repo1 and s = sampling0 and n = "Suc 0"
      and net = net_flaky and a = args_plain and e = e and ?s1.0 = s1 and rest = "[repo2]"
      and commit = commit1 and fid = 1 and full_name = "''carol/vault''"
      and path = "''contracts/Token.sol''" and e' = e' and ?s2.0 = s2 and cs = "[commit2]"]
  have g': "get (Suc 0) net_flaky args_plain ?tree [] (insert_repo repo1 sampling0) = Raise e s1"
    using g by (simp only: u)
  have c': "get_content net_flaky ?raw sampling0 = Raise e' s2"
    using c by (simp only: v)
  from th[THEN conjunct1, rule_format, OF conjI[OF k g']]
  have r: "repos_loop (Suc 0) net_flaky args_plain [repo1, repo2] sampling0
       = repos_loop (Suc 0) net_flaky args_plain [repo2] s1"
    by (rule conjunct1)
  from th[THEN conjunct2, rule_format, OF conjI[OF kc c']]
  have m: "commits_loop net_flaky ''carol/vault'' ''contracts/Token.sol'' 1 [commit1, commit2] sampling0
       = commits_loop net_flaky ''carol/vault'' ''contracts/Token.sol'' 1 [commit2] s2"
    by (rule conjunct1)
  have f1: "final_state (get (Suc 0) net_flaky args_plain url_tree1 []
      (insert_repo repo1 sampling0)) = Some s1"
    by (simp only: g final_state_def result.case)
  have f2: "final_state (get_content net_flaky
      ''https://raw.githubusercontent.com/carol/vault/c0ffee/contracts/Token.sol'' sampling0)
        = Some s2"
    by (simp only: c final_state_def result.case)
  have a: "map_option (\<lambda>s. map repo_id (tbl_repo (db s)))
        (final_state (repos_loop (Suc 0) net_flaky args_plain [repo1, repo2] sampling0))
       = Some [7, 8]"
    by code_simp
  have b: "map_option (\<lambda>s. map comit_sha (tbl_comit (db s)))
        (final_state (commits_loop net_flaky ''carol/vault'' ''contracts/Token.sol'' 1
           [commit1, commit2] sampling0))
       = Some [''decaf'']"
    by code_simp
  show ?thesis
    unfolding f1 f2 option.sel using k kc r m a b
    by (simp only: simp_thms option.distinct)
qed

section \<open>What downloading leaves unchanged\<close>

lemma crawl_frame_refl [simp]: "crawl_frame s s"
  by (simp add: crawl_frame_def)

lemma crawl_frame_trans: "crawl_frame s s1 \<Longrightarrow> crawl_frame s1 s2 \<Longrightarrow> crawl_frame s s2"
  by (simp add: crawl_frame_def)

lemma client_crawl_frame: "client_frame s s' \<Longrightarrow> crawl_frame s s'"
  by (simp add: client_frame_iff crawl_frame_def)

lemma crawl_frame_inserts [simp]:
  "crawl_frame s (insert_repo repo s)" "crawl_frame s (snd (insert_file file rid s))"
  "crawl_frame s (insert_commit commit res ps fid s)"
  by (simp_all add: crawl_frame_def insert_repo_def insert_file_def insert_commit_def Let_def)

lemma crawl_after:
  assumes "crawl_frame s s1" and "ends_with (crawl_frame s1) m"
  shows "ends_with (crawl_frame s) m"
  using assms(2) by (rule ends_with_mono) (rule crawl_frame_trans[OF assms(1)])

lemma get_crawl_frame: "ends_with (crawl_frame s) (get n net a url ps s)"
  using get_frame(1) by (rule ends_with_mono) (rule client_crawl_frame)

lemma get_content_crawl_frame: "ends_with (crawl_frame s) (get_content net u s)"
  using get_content_frame by (rule ends_with_mono) (rule client_crawl_frame)

lemma commits_loop_frame:
  "ends_with (crawl_frame s) (commits_loop net full_name path fid cs s)"
proof (induction cs arbitrary: s)
  case Nil
  then show ?case by simp
next
  case (Cons commit cs)
  let ?u = "''https://raw.githubusercontent.com/'' @ full_name @ ''/''
                      @ commit_sha commit @ ''/'' @ path"
  show ?case
  proof (cases "known_commit commit fid s")
    case True
    then show ?thesis using Cons.IH by simp
  next
    case False
    have g: "ends_with (crawl_frame s) (get_content net ?u s)"
      by (rule get_content_crawl_frame)
    show ?thesis
    proof (cases "get_content net ?u s")
      case (Return res s1)
      with g have "crawl_frame s s1" by simp
      then have "crawl_frame s (insert_commit commit res (commit_parents commit) fid s1)"
        by (rule crawl_frame_trans) simp
      then have "ends_with (crawl_frame s)
          (commits_loop net full_name path fid cs
             (insert_commit commit res (commit_parents commit) fid s1))"
        using Cons.IH by (rule crawl_after)
      with False Return show ?thesis by simp
    next
      case (Raise e s1)
      with g have "crawl_frame s s1" by simp
      then have "ends_with (crawl_frame s) (commits_loop net full_name path fid cs s1)"
        using Cons.IH by (rule crawl_after)
      with False Raise show ?thesis by simp
    next
      case (Exit s1)
      with g False show ?thesis by simp
    next
      case OutOfFuel
      with False show ?thesis by simp
    qed
  qed
qed

lemma download_commits_from_page_frame:
  "ends_with (crawl_frame s) (download_commits_from_page net res full_name path fid s)"
  by (simp add: download_commits_from_page_def commits_loop_frame split: option.splits)

lemma crawl_bind:
  assumes "ends_with (crawl_frame s) m"
    and "\<And>x s1. m = Return x s1 \<Longrightarrow> ends_with (crawl_frame s1) (f x s1)"
  shows "ends_with (crawl_frame s) (bind m f)"
proof (rule ends_with_bind[OF assms(1)])
  fix x s1
  assume m: "m = Return x s1"
  with assms(1) have "crawl_frame s s1" by simp
  then show "ends_with (crawl_frame s) (f x s1)" using assms(2)[OF m] by (rule crawl_after)
qed

lemma commit_pages_frame:
  "ends_with (crawl_frame s) (commit_pages n net a res full_name path fid s)"
proof (induction n arbitrary: res s)
  case 0
  then show ?case by simp
next
  case (Suc n)
  show ?case
  proof (cases "link_next res")
    case None
    then show ?thesis by simp
  next
    case (Some u)
    have "ends_with (crawl_frame s)
        (bind (get n net a u [] s)
            (\<lambda>res' s1. bind (download_commits_from_page net res' full_name path fid s1)
               (\<lambda>_ s2. commit_pages n net a res' full_name path fid s2)))"
      by (intro crawl_bind get_crawl_frame download_commits_from_page_frame Suc.IH)
    with Some show ?thesis by simp
  qed
qed

lemma download_all_commits_frame:
  "ends_with (crawl_frame s) (download_all_commits n net a repo file fid s)"
proof -
  let ?u = "replace_hash (take (length (item_commits_url repo) - 6) (item_commits_url repo))"
  let ?ps = "[(''path'', entry_path file), (''per_page'', ''100'')]"
  have g: "ends_with (crawl_frame s) (get n net a ?u ?ps s)" by (rule get_crawl_frame)
  show ?thesis
  proof (cases "get n net a ?u ?ps s")
    case (Return res s1)
    with g have f: "crawl_frame s s1" by simp
    have "ends_with (crawl_frame s1)
        (bind (download_commits_from_page net res (item_full_name repo) (entry_path file) fid s1)
               (\<lambda>_ s2. commit_pages n net a res (item_full_name repo) (entry_path file) fid s2))"
      by (intro crawl_bind download_commits_from_page_frame commit_pages_frame)
    with f have "ends_with (crawl_frame s)
        (bind (download_commits_from_page net res (item_full_name repo) (entry_path file) fid s1)
               (\<lambda>_ s2. commit_pages n net a res (item_full_name repo) (entry_path file) fid s2))"
      by (rule crawl_after)
    with Return show ?thesis by (simp add: download_all_commits_def)
  next
    case (Raise e s1)
    with g show ?thesis by (simp add: download_all_commits_def)
  next
    case (Exit s1)
    with g show ?thesis by (simp add: download_all_commits_def)
  next
    case OutOfFuel
    then show ?thesis by (simp add: download_all_commits_def)
  qed
qed

lemma files_loop_frame: "ends_with (crawl_frame s) (files_loop n net a repo fs s)"
proof (induction fs arbitrary: s)
  case Nil
  then show ?case by simp
next
  case (Cons f fs)
  show ?case
  proof (cases "entry_type f = ''blob'' \<and> is_sol_path (entry_path f)
      \<and> \<not> known_file (with_name f) (item_id repo) s")
    case False
    then show ?thesis using Cons.IH by auto
  next
    case True
    obtain fid s1 where i: "insert_file (with_name f) (item_id repo) s = (fid, s1)"
      by (cases "insert_file (with_name f) (item_id repo) s")
    have "crawl_frame s (snd (insert_file (with_name f) (item_id repo) s))" by simp
    with i have f1: "crawl_frame s s1" by simp
    have "ends_with (crawl_frame s1)
        (bind (download_all_commits n net a repo (with_name f) fid s1)
                        (\<lambda>_ s2. files_loop n net a repo fs s2))"
      by (intro crawl_bind download_all_commits_frame Cons.IH)
    with f1 have "ends_with (crawl_frame s)
        (bind (download_all_commits n net a repo (with_name f) fid s1)
                        (\<lambda>_ s2. files_loop n net a repo fs s2))"
      by (rule crawl_after)
    with True i show ?thesis by simp
  qed
qed

lemma repos_loop_frame: "ends_with (crawl_frame s) (repos_loop n net a items s)"
proof (induction items arbitrary: s)
  case Nil
  then show ?case by simp
next
  case (Cons repo rest)
  let ?u = "''https://api.github.com/repos/'' @ item_full_name repo @ ''/git/trees/''
                      @ item_default_branch repo @ ''?recursive=1''"
  show ?case
  proof (cases "known_repo repo s")
    case True
    then show ?thesis using Cons.IH by simp
  next
    case False
    have "ends_with (crawl_frame (insert_repo repo s)) (get n net a ?u [] (insert_repo repo s))"
      by (rule get_crawl_frame)
    then have g: "ends_with (crawl_frame s) (get n net a ?u [] (insert_repo repo s))"
      by (rule crawl_after[rotated]) simp
    show ?thesis
    proof (cases "get n net a ?u [] (insert_repo repo s)")
      case (Return res s1)
      with g have f: "crawl_frame s s1" by simp
      show ?thesis
      proof (cases "tree_of res")
        case None
        with False Return f show ?thesis by simp
      next
        case (Some tree)
        have "ends_with (crawl_frame s1)
            (bind (files_loop n net a repo tree s1)
                       (\<lambda>_ s2. if sam_repo s2 \<ge> pop_repo s2 then Return () s2
                                else repos_loop n net a rest s2))"
          by (rule crawl_bind[OF files_loop_frame]) (simp add: Cons.IH)
        with f have "ends_with (crawl_frame s)
            (bind (files_loop n net a repo tree s1)
                       (\<lambda>_ s2. if sam_repo s2 \<ge> pop_repo s2 then Return () s2
                                else repos_loop n net a rest s2))"
          by (rule crawl_after)
        with False Return Some show ?thesis by simp
      qed
    next
      case (Raise e s1)
      with g have "crawl_frame s s1" by simp
      then have "ends_with (crawl_frame s) (repos_loop n net a rest s1)"
        using Cons.IH by (rule crawl_after)
      with False Raise show ?thesis by simp
    next
      case (Exit s1)
      with g False show ?thesis by simp
    next
      case OutOfFuel
      with False show ?thesis by simp
    qed
  qed
qed

lemma download_repos_from_page_frame:
  "ends_with (crawl_frame s) (download_repos_from_page n net a res s)"
  by (simp add: download_repos_from_page_def repos_loop_frame split: option.splits)

lemma pages_frame_refl [simp]: "pages_frame s s"
  by (simp add: pages_frame_def)

lemma pages_frame_trans: "pages_frame s s1 \<Longrightarrow> pages_frame s1 s2 \<Longrightarrow> pages_frame s s2"
  by (simp add: pages_frame_def)

lemma crawl_pages_frame: "crawl_frame s s' \<Longrightarrow> pages_frame s s'"
  by (simp add: crawl_frame_def pages_frame_def)

lemma pages_after:
  assumes "pages_frame s s1" and "ends_with (pages_frame s1) m"
  shows "ends_with (pages_frame s) m"
  using assms(2) by (rule ends_with_mono) (rule pages_frame_trans[OF assms(1)])

lemma pages_bind:
  assumes "ends_with (pages_frame s) m"
    and "\<And>x s1. m = Return x s1 \<Longrightarrow> ends_with (pages_frame s1) (f x s1)"
  shows "ends_with (pages_frame s) (bind m f)"
proof (rule ends_with_bind[OF assms(1)])
  fix x s1
  assume m: "m = Return x s1"
  with assms(1) have "pages_frame s s1" by simp
  then show "ends_with (pages_frame s) (f x s1)" using assms(2)[OF m] by (rule pages_after)
qed

lemma get_pages_frame: "ends_with (pages_frame s) (get n net a url ps s)"
  using get_crawl_frame by (rule ends_with_mono) (rule crawl_pages_frame)

lemma page_pages_frame: "ends_with (pages_frame s) (download_repos_from_page n net a res s)"
  using download_repos_from_page_frame by (rule ends_with_mono) (rule crawl_pages_frame)

lemma pages_loop_frame: "ends_with (pages_frame s) (pages_loop n net a res s)"
proof (induction n arbitrary: res s)
  case 0
  then show ?case by simp
next
  case (Suc n)
  show ?case
  proof (cases "link_next res")
    case None
    then show ?thesis by simp
  next
    case (Some u)
    have "ends_with (pages_frame s)
        (bind (get n net a u [] s)
            (\<lambda>res' s1.
               case total_count res' of
                 None \<Rightarrow> Raise DecodeError s1
               | Some c \<Rightarrow>
                   bind (download_repos_from_page n net a res'
                           (s1\<lparr>pop_repo := max (pop_repo s1) (c + current_cumulative_pop s1)\<rparr>))
                     (\<lambda>_ s2. if sam_repo s2 \<ge> pop_repo s2 then Return () s2
                              else pages_loop n net a res' s2)))"
    proof (rule pages_bind[OF get_pages_frame])
      fix res' s1
      show "ends_with (pages_frame s1)
          (case total_count res' of
                 None \<Rightarrow> Raise DecodeError s1
               | Some c \<Rightarrow>
                   bind (download_repos_from_page n net a res'
                           (s1\<lparr>pop_repo := max (pop_repo s1) (c + current_cumulative_pop s1)\<rparr>))
                     (\<lambda>_ s2. if sam_repo s2 \<ge> pop_repo s2 then Return () s2
                              else pages_loop n net a res' s2))"
      proof (cases "total_count res'")
        case None
        then show ?thesis by simp
      next
        case (Some c)
        let ?s = "s1\<lparr>pop_repo := max (pop_repo s1) (c + current_cumulative_pop s1)\<rparr>"
        have up: "pages_frame s1 ?s" by (simp add: pages_frame_def)
        have "ends_with (pages_frame ?s)
            (bind (download_repos_from_page n net a res' ?s)
                     (\<lambda>_ s2. if sam_repo s2 \<ge> pop_repo s2 then Return () s2
                              else pages_loop n net a res' s2))"
          by (rule pages_bind[OF page_pages_frame]) (simp add: Suc.IH)
        with up have "ends_with (pages_frame s1)
            (bind (download_repos_from_page n net a res' ?s)
                     (\<lambda>_ s2. if sam_repo s2 \<ge> pop_repo s2 then Return () s2
                              else pages_loop n net a res' s2))"
          by (rule pages_after)
        with Some show ?thesis by simp
      qed
    qed
    with Some show ?thesis by simp
  qed
qed

lemma download_all_repos_frame: "ends_with (pages_frame s) (download_all_repos n net a res s)"
  unfolding download_all_repos_def
  by (intro pages_bind page_pages_frame pages_loop_frame)

lemma download_all_repos_single:
  assumes "link_next res = None" and "download_all_repos n net a res s = Return x s'"
  shows "crawl_frame s s'"
proof -
  have f: "ends_with (crawl_frame s) (download_repos_from_page n net a res s)"
    by (rule download_repos_from_page_frame)
  show ?thesis
  proof (cases "download_repos_from_page n net a res s")
    case (Return y s1)
    with f have c: "crawl_frame s s1" by simp
    from assms Return have "pages_loop n net a res s1 = Return x s'"
      by (simp add: download_all_repos_def bind_def)
    with assms(1) have "s' = s1" by (cases n) simp_all
    with c show ?thesis by simp
  next
    case (Raise e s1)
    with assms show ?thesis by (simp add: download_all_repos_def bind_def)
  next
    case (Exit s1)
    with assms show ?thesis by (simp add: download_all_repos_def bind_def)
  next
    case OutOfFuel
    with assms show ?thesis by (simp add: download_all_repos_def bind_def)
  qed
qed

lemma search_frame:
  "ends_with (client_frame (s\<lparr>searches := searches s @ [(lo, hi, order, lic)]\<rparr>))
     (search n net a lo hi order lic s)"
  by (simp add: search_def Let_def get_frame(1))

section \<open>What a run appends to the trace\<close>

lemma trace_grows_refl [simp]: "trace_grows s s"
  by (simp add: trace_grows_def)

lemma trace_grows_trans: "trace_grows s s1 \<Longrightarrow> trace_grows s1 s2 \<Longrightarrow> trace_grows s s2"
  unfolding trace_grows_def by (rule prefix_order.trans)

lemma trace_grows_steps [simp]:
  "trace_grows s (sleep d s)" "trace_grows s (throttle_sleep a s)"
  "trace_grows s (request_sent u s)" "trace_grows s (count_call r s)"
  by (simp_all add: trace_grows_def throttle_sleep_def request_sent_def count_call_def sleep_def)

lemma trace_grows_inserts [simp]:
  "trace_grows s (insert_repo repo s)" "trace_grows s (snd (insert_file file rid s))"
  "trace_grows s (insert_commit commit res ps fid s)"
  by (simp_all add: trace_grows_def insert_repo_def insert_file_def insert_commit_def Let_def)

lemma grows_after:
  assumes "trace_grows s s1" and "ends_with (trace_grows s1) m"
  shows "ends_with (trace_grows s) m"
  using assms(2) by (rule ends_with_mono) (rule trace_grows_trans[OF assms(1)])

lemma handle_log_response_grows: "ends_with (trace_grows s) (handle_log_response res s)"
  by (simp add: handle_log_response_def trace_grows_def sleep_def)

lemma raise_for_status_grows: "ends_with (trace_grows s) (raise_for_status res s)"
  by (simp add: raise_for_status_def)

lemma finish_grows:
  "ends_with (trace_grows s)
     (bind (if status_code res \<noteq> 200 then handle_log_response res s else Return () s)
        (\<lambda>_ s3. bind (raise_for_status res s3) (\<lambda>_ s4. Return res s4)))"
proof (rule ends_with_bind)
  show "ends_with (trace_grows s)
      (if status_code res \<noteq> 200 then handle_log_response res s else Return () s)"
    by (simp add: handle_log_response_grows)
next
  fix x s3
  assume "(if status_code res \<noteq> 200 then handle_log_response res s else Return () s) = Return x s3"
  then have "ends_with (trace_grows s) (Return x s3 :: unit result)"
    by (metis handle_log_response_grows trace_grows_refl ends_with_simps(1))
  then have f: "trace_grows s s3" by simp
  have "ends_with (trace_grows s3) (bind (raise_for_status res s3) (\<lambda>_ s4. Return res s4))"
    by (rule ends_with_bind) (simp_all add: raise_for_status_grows raise_for_status_def split: if_splits)
  with f show "ends_with (trace_grows s) (bind (raise_for_status res s3) (\<lambda>_ s4. Return res s4))"
    by (rule grows_after)
qed

lemma get_grows:
  "ends_with (trace_grows s) (get n net a url ps s)"
  and handle_rate_limit_error_grows:
    "ends_with (trace_grows s) (handle_rate_limit_error n net a res s)"
proof (induction n net a url ps s and n net a res s rule: get_handle_rate_limit_error.induct)
  case (1 net a url ps s)
  then show ?case by simp
next
  case (2 n net a url ps s)
  let ?s1 = "throttle_sleep a s"
  let ?u = "prepare url ps"
  have f1: "trace_grows s (request_sent ?u ?s1)"
    by (rule trace_grows_trans[of _ ?s1]) simp_all
  show ?case
  proof (cases "net (length (trace ?s1)) ?u")
    case ConnectionError
    then show ?thesis using f1 by (simp add: signal_handler_def)
  next
    case (Response r)
    let ?res = "r\<lparr>resp_url := ?u\<rparr>"
    let ?s2 = "count_call ?res (request_sent ?u ?s1)"
    have f2: "trace_grows s ?s2"
      using f1 by (rule trace_grows_trans) simp
    show ?thesis
    proof (cases "status_code r = 403")
      case True
      have "ends_with (trace_grows ?s2) (handle_rate_limit_error n net a ?res ?s2)"
        using "2.IH"[OF refl Response refl refl] True by simp
      with f2 have "ends_with (trace_grows s) (handle_rate_limit_error n net a ?res ?s2)"
        by (rule grows_after)
      with Response True show ?thesis by (simp add: Let_def)
    next
      case False
      have "ends_with (trace_grows s)
        (bind (if status_code ?res \<noteq> 200 then handle_log_response ?res ?s2 else Return () ?s2)
          (\<lambda>_ s3. bind (raise_for_status ?res s3) (\<lambda>_ s4. Return ?res s4)))"
        using f2 finish_grows by (rule grows_after)
      with Response False show ?thesis by (simp add: Let_def)
    qed
  qed
next
  case (3 n net a res s)
  have "ends_with (trace_grows (sleep (of_int (rate_limit_wait res s)) s))
      (get n net a (resp_url res) [] (sleep (of_int (rate_limit_wait res s)) s))"
    using 3 by simp
  then have "ends_with (trace_grows s)
      (get n net a (resp_url res) [] (sleep (of_int (rate_limit_wait res s)) s))"
    by (rule grows_after[rotated]) simp
  then show ?case by simp
qed

lemma get_content_grows: "ends_with (trace_grows s) (get_content net u s)"
proof (cases "net (length (trace s)) u")
  case ConnectionError
  then show ?thesis by (simp add: get_content_def signal_handler_def)
next
  case (Response r)
  have "ends_with (trace_grows s)
        (bind (if status_code (r\<lparr>resp_url := u\<rparr>) \<noteq> 200
               then handle_log_response (r\<lparr>resp_url := u\<rparr>) (request_sent u s)
               else Return () (request_sent u s))
          (\<lambda>_ s3. bind (raise_for_status (r\<lparr>resp_url := u\<rparr>) s3) (\<lambda>_ s4. Return (r\<lparr>resp_url := u\<rparr>) s4)))"
    by (rule grows_after[OF _ finish_grows]) simp
  with Response show ?thesis by (simp add: get_content_def Let_def)
qed

lemma grows_bind:
  assumes "ends_with (trace_grows s) m"
    and "\<And>x s1. m = Return x s1 \<Longrightarrow> ends_with (trace_grows s1) (f x s1)"
  shows "ends_with (trace_grows s) (bind m f)"
proof (rule ends_with_bind[OF assms(1)])
  fix x s1
  assume m: "m = Return x s1"
  with assms(1) have "trace_grows s s1" by simp
  then show "ends_with (trace_grows s) (f x s1)" using assms(2)[OF m] by (rule grows_after)
qed

lemma commits_loop_grows:
  "ends_with (trace_grows s) (commits_loop net full_name path fid cs s)"
proof (induction cs arbitrary: s)
  case Nil
  then show ?case by simp
next
  case (Cons commit cs)
  let ?u = "''https://raw.githubusercontent.com/'' @ full_name @ ''/''
                      @ commit_sha commit @ ''/'' @ path"
  show ?case
  proof (cases "known_commit commit fid s")
    case True
    then show ?thesis using Cons.IH by simp
  next
    case False
    have g: "ends_with (trace_grows s) (get_content net ?u s)"
      by (rule get_content_grows)
    show ?thesis
    proof (cases "get_content net ?u s")
      case (Return res s1)
      with g have "trace_grows s s1" by simp
      then have "trace_grows s (insert_commit commit res (commit_parents commit) fid s1)"
        by (rule trace_grows_trans) simp
      then have "ends_with (trace_grows s)
          (commits_loop net full_name path fid cs
             (insert_commit commit res (commit_parents commit) fid s1))"
        using Cons.IH by (rule grows_after)
      with False Return show ?thesis by simp
    next
      case (Raise e s1)
      with g have "trace_grows s s1" by simp
      then have "ends_with (trace_grows s) (commits_loop net full_name path fid cs s1)"
        using Cons.IH by (rule grows_after)
      with False Raise show ?thesis by simp
    next
      case (Exit s1)
      with g False show ?thesis by simp
    next
      case OutOfFuel
      with False show ?thesis by simp
    qed
  qed
qed

lemma download_commits_from_page_grows:
  "ends_with (trace_grows s) (download_commits_from_page net res full_name path fid s)"
  by (simp add: download_commits_from_page_def commits_loop_grows split: option.splits)

lemma commit_pages_grows:
  "ends_with (trace_grows s) (commit_pages n net a res full_name path fid s)"
proof (induction n arbitrary: res s)
  case 0
  then show ?case by simp
next
  case (Suc n)
  show ?case
  proof (cases "link_next res")
    case None
    then show ?thesis by simp
  next
    case (Some u)
    have "ends_with (trace_grows s)
        (bind (get n net a u [] s)
            (\<lambda>res' s1. bind (download_commits_from_page net res' full_name path fid s1)
               (\<lambda>_ s2. commit_pages n net a res' full_name path fid s2)))"
      by (intro grows_bind get_grows download_commits_from_page_grows Suc.IH)
    with Some show ?thesis by simp
  qed
qed

lemma download_all_commits_grows:
  "ends_with (trace_grows s) (download_all_commits n net a repo file fid s)"
proof -
  let ?u = "replace_hash (take (length (item_commits_url repo) - 6) (item_commits_url repo))"
  let ?ps = "[(''path'', entry_path file), (''per_page'', ''100'')]"
  have g: "ends_with (trace_grows s) (get n net a ?u ?ps s)" by (rule get_grows(1))
  show ?thesis
  proof (cases "get n net a ?u ?ps s")
    case (Return res s1)
    with g have f: "trace_grows s s1" by simp
    have "ends_with (trace_grows s1)
        (bind (download_commits_from_page net res (item_full_name repo) (entry_path file) fid s1)
               (\<lambda>_ s2. commit_pages n net a res (item_full_name repo) (entry_path file) fid s2))"
      by (intro grows_bind download_commits_from_page_grows commit_pages_grows)
    with f have "ends_with (trace_grows s)
        (bind (download_commits_from_page net res (item_full_name repo) (entry_path file) fid s1)
               (\<lambda>_ s2. commit_pages n net a res (item_full_name repo) (entry_path file) fid s2))"
      by (rule grows_after)
    with Return show ?thesis by (simp add: download_all_commits_def)
  next
    case (Raise e s1)
    with g show ?thesis by (simp add: download_all_commits_def)
  next
    case (Exit s1)
    with g show ?thesis by (simp add: download_all_commits_def)
  next
    case OutOfFuel
    then show ?thesis by (simp add: download_all_commits_def)
  qed
qed

lemma files_loop_grows: "ends_with (trace_grows s) (files_loop n net a repo fs s)"
proof (induction fs arbitrary: s)
  case Nil
  then show ?case by simp
next
  case (Cons f fs)
  show ?case
  proof (cases "entry_type f = ''blob'' \<and> is_sol_path (entry_path f)
      \<and> \<not> known_file (with_name f) (item_id repo) s")
    case False
    then show ?thesis using Cons.IH by auto
  next
    case True
    obtain fid s1 where i: "insert_file (with_name f) (item_id repo) s = (fid, s1)"
      by (cases "insert_file (with_name f) (item_id repo) s")
    have "trace_grows s (snd (insert_file (with_name f) (item_id repo) s))" by simp
    with i have f1: "trace_grows s s1" by simp
    have "ends_with (trace_grows s1)
        (bind (download_all_commits n net a repo (with_name f) fid s1)
                        (\<lambda>_ s2. files_loop n net a repo fs s2))"
      by (intro grows_bind download_all_commits_grows Cons.IH)
    with f1 have "ends_with (trace_grows s)
        (bind (download_all_commits n net a repo (with_name f) fid s1)
                        (\<lambda>_ s2. files_loop n net a repo fs s2))"
      by (rule grows_after)
    with True i show ?thesis by simp
  qed
qed

lemma repos_loop_grows: "ends_with (trace_grows s) (repos_loop n net a items s)"
proof (induction items arbitrary: s)
  case Nil
  then show ?case by simp
next
  case (Cons repo rest)
  let ?u = "''https://api.github.com/repos/'' @ item_full_name repo @ ''/git/trees/''
                      @ item_default_branch repo @ ''?recursive=1''"
  show ?case
  proof (cases "known_repo repo s")
    case True
    then show ?thesis using Cons.IH by simp
  next
    case False
    have "ends_with (trace_grows (insert_repo repo s)) (get n net a ?u [] (insert_repo repo s))"
      by (rule get_grows(1))
    then have g: "ends_with (trace_grows s) (get n net a ?u [] (insert_repo repo s))"
      by (rule grows_after[rotated]) simp
    show ?thesis
    proof (cases "get n net a ?u [] (insert_repo repo s)")
      case (Return res s1)
      with g have f: "trace_grows s s1" by simp
      show ?thesis
      proof (cases "tree_of res")
        case None
        with False Return f show ?thesis by simp
      next
        case (Some tree)
        have "ends_with (trace_grows s1)
            (bind (files_loop n net a repo tree s1)
                       (\<lambda>_ s2. if sam_repo s2 \<ge> pop_repo s2 then Return () s2
                                else repos_loop n net a rest s2))"
          by (rule grows_bind[OF files_loop_grows]) (simp add: Cons.IH)
        with f have "ends_with (trace_grows s)
            (bind (files_loop n net a repo tree s1)
                       (\<lambda>_ s2. if sam_repo s2 \<ge> pop_repo s2 then Return () s2
                                else repos_loop n net a rest s2))"
          by (rule grows_after)
        with False Return Some show ?thesis by simp
      qed
    next
      case (Raise e s1)
      with g have "trace_grows s s1" by simp
      then have "ends_with (trace_grows s) (repos_loop n net a rest s1)"
        using Cons.IH by (rule grows_after)
      with False Raise show ?thesis by simp
    next
      case (Exit s1)
      with g False show ?thesis by simp
    next
      case OutOfFuel
      with False show ?thesis by simp
    qed
  qed
qed

lemma download_repos_from_page_grows:
  "ends_with (trace_grows s) (download_repos_from_page n net a res s)"
  by (simp add: download_repos_from_page_def repos_loop_grows split: option.splits)

lemma pages_loop_grows: "ends_with (trace_grows s) (pages_loop n net a res s)"
proof (induction n arbitrary: res s)
  case 0
  then show ?case by simp
next
  case (Suc n)
  show ?case
  proof (cases "link_next res")
    case None
    then show ?thesis by simp
  next
    case (Some u)
    have "ends_with (trace_grows s)
        (bind (get n net a u [] s)
            (\<lambda>res' s1.
               case total_count res' of
                 None \<Rightarrow> Raise DecodeError s1
               | Some c \<Rightarrow>
                   bind (download_repos_from_page n net a res'
                           (s1\<lparr>pop_repo := max (pop_repo s1) (c + current_cumulative_pop s1)\<rparr>))
                     (\<lambda>_ s2. if sam_repo s2 \<ge> pop_repo s2 then Return () s2
                              else pages_loop n net a res' s2)))"
    proof (rule grows_bind[OF get_grows])
      fix res' s1
      show "ends_with (trace_grows s1)
          (case total_count res' of
                 None \<Rightarrow> Raise DecodeError s1
               | Some c \<Rightarrow>
                   bind (download_repos_from_page n net a res'
                           (s1\<lparr>pop_repo := max (pop_repo s1) (c + current_cumulative_pop s1)\<rparr>))
                     (\<lambda>_ s2. if sam_repo s2 \<ge> pop_repo s2 then Return () s2
                              else pages_loop n net a res' s2))"
      proof (cases "total_count res'")
        case None
        then show ?thesis by simp
      next
        case (Some c)
        let ?s = "s1\<lparr>pop_repo := max (pop_repo s1) (c + current_cumulative_pop s1)\<rparr>"
        have up: "trace_grows s1 ?s" by (simp add: trace_grows_def)
        have "ends_with (trace_grows ?s)
            (bind (download_repos_from_page n net a res' ?s)
                     (\<lambda>_ s2. if sam_repo s2 \<ge> pop_repo s2 then Return () s2
                              else pages_loop n net a res' s2))"
          by (rule grows_bind[OF download_repos_from_page_grows]) (simp add: Suc.IH)
        with up have "ends_with (trace_grows s1)
            (bind (download_repos_from_page n net a res' ?s)
                     (\<lambda>_ s2. if sam_repo s2 \<ge> pop_repo s2 then Return () s2
                              else pages_loop n net a res' s2))"
          by (rule grows_after)
        with Some show ?thesis by simp
      qed
    qed
    with Some show ?thesis by simp
  qed
qed

lemma download_all_repos_grows: "ends_with (trace_grows s) (download_all_repos n net a res s)"
  unfolding download_all_repos_def
  by (intro grows_bind download_repos_from_page_grows pages_loop_grows)


text \<open>Every state that \<open>get\<close> ends in comes after its request was sent.\<close>

lemma get_sent_first:
  "ends_with (sent_first a (prepare url ps) s) (get n net a url ps s)"
proof (cases n)
  case 0
  then show ?thesis by simp
next
  case (Suc k)
  let ?s1 = "throttle_sleep a s"
  let ?u = "prepare url ps"
  have g: "\<And>s'. trace_grows (request_sent ?u ?s1) s' \<Longrightarrow> sent_first a ?u s s'"
    by (simp add: trace_grows_def sent_first_def request_sent_def)
  show ?thesis
  proof (cases "net (length (trace ?s1)) ?u")
    case ConnectionError
    then show ?thesis using Suc g[of "request_sent ?u ?s1"] by (simp add: signal_handler_def)
  next
    case (Response r)
    let ?res = "r\<lparr>resp_url := ?u\<rparr>"
    let ?s2 = "count_call ?res (request_sent ?u ?s1)"
    have f2: "trace_grows (request_sent ?u ?s1) ?s2" by simp
    show ?thesis
    proof (cases "status_code r = 403")
      case True
      have "ends_with (trace_grows ?s2) (handle_rate_limit_error k net a ?res ?s2)"
        by (rule handle_rate_limit_error_grows)
      with f2 have "ends_with (trace_grows (request_sent ?u ?s1))
          (handle_rate_limit_error k net a ?res ?s2)"
        by (rule grows_after)
      then have "ends_with (sent_first a ?u s) (handle_rate_limit_error k net a ?res ?s2)"
        by (rule ends_with_mono) (rule g)
      with Response True Suc show ?thesis by (simp add: Let_def)
    next
      case False
      have "ends_with (trace_grows (request_sent ?u ?s1))
        (bind (if status_code ?res \<noteq> 200 then handle_log_response ?res ?s2 else Return () ?s2)
          (\<lambda>_ s3. bind (raise_for_status ?res s3) (\<lambda>_ s4. Return ?res s4)))"
        using f2 finish_grows by (rule grows_after)
      then have "ends_with (sent_first a ?u s)
        (bind (if status_code ?res \<noteq> 200 then handle_log_response ?res ?s2 else Return () ?s2)
          (\<lambda>_ s3. bind (raise_for_status ?res s3) (\<lambda>_ s4. Return ?res s4)))"
        by (rule ends_with_mono) (rule g)
      with Response False Suc show ?thesis by (simp add: Let_def)
    qed
  qed
qed

lemma sent_first_after: "sent_first a u s s1 \<Longrightarrow> trace_grows s1 s2 \<Longrightarrow> sent_first a u s s2"
  unfolding sent_first_def trace_grows_def by (rule prefix_order.trans)

lemma search_sent_first:
  "ends_with (sent_first a (search_url a lo hi order lic) s) (search n net a lo hi order lic s)"
proof -
  let ?s = "s\<lparr>searches := searches s @ [(lo, hi, order, lic)]\<rparr>"
  have "sent_first a u ?s = sent_first a u s" for u
    by (rule ext) (simp add: sent_first_def throttle_sleep_def sleep_def)
  then show ?thesis
    using get_sent_first[of a "''https://api.github.com/search/repositories''" _ ?s n net]
    by (simp add: search_def search_url_def Let_def)
qed

section \<open>Properties of the sampler\<close>

lemma query_pass:
  assumes g: "\<And>c s1. searches (g c s1) = searches s1 \<and> strat_first (g c s1) = strat_first s1
                \<and> strat_last (g c s1) = strat_last s1"
    and h: "\<And>s1. searches (h s1) = searches s1 \<and> strat_first (h s1) = strat_first s1
                \<and> strat_last (h s1) = strat_last s1"
  shows "ends_with (\<lambda>s'. searches s' = searches s @ [(lo, hi, order, lic)]
                      \<and> strat_first s' = strat_first s \<and> strat_last s' = strat_last s)
     (bind (search n net a lo hi order lic s)
        (\<lambda>res s1. case total_count res of
                     None \<Rightarrow> Raise DecodeError (h s1)
                   | Some c \<Rightarrow> download_all_repos n net a res (g c s1)))"
proof (rule ends_with_bind)
  show "ends_with (\<lambda>s'. searches s' = searches s @ [(lo, hi, order, lic)]
                      \<and> strat_first s' = strat_first s \<and> strat_last s' = strat_last s)
     (search n net a lo hi order lic s)"
    using search_frame by (rule ends_with_mono) (simp add: client_frame_iff)
next
  fix res s1
  assume r: "search n net a lo hi order lic s = Return res s1"
  have "ends_with (client_frame (s\<lparr>searches := searches s @ [(lo, hi, order, lic)]\<rparr>))
     (search n net a lo hi order lic s)"
    by (rule search_frame)
  with r have s1: "searches s1 = searches s @ [(lo, hi, order, lic)]"
    "strat_first s1 = strat_first s" "strat_last s1 = strat_last s"
    by (simp_all add: client_frame_iff)
  show "ends_with (\<lambda>s'. searches s' = searches s @ [(lo, hi, order, lic)]
                      \<and> strat_first s' = strat_first s \<and> strat_last s' = strat_last s)
     (case total_count res of
                     None \<Rightarrow> Raise DecodeError (h s1)
                   | Some c \<Rightarrow> download_all_repos n net a res (g c s1))"
  proof (cases "total_count res")
    case None
    then show ?thesis using s1 h by simp
  next
    case (Some c)
    have "ends_with (pages_frame (g c s1)) (download_all_repos n net a res (g c s1))"
      by (rule download_all_repos_frame)
    then have "ends_with (\<lambda>s'. searches s' = searches s @ [(lo, hi, order, lic)]
                      \<and> strat_first s' = strat_first s \<and> strat_last s' = strat_last s)
        (download_all_repos n net a res (g c s1))"
      by (rule ends_with_mono) (simp add: pages_frame_def s1 g)
    with Some show ?thesis by simp
  qed
qed

lemma ascending_pass_searches:
  "ends_with (\<lambda>s'. searches s' = searches s @ [(strat_first s, strat_last s, ''asc'', ''no'')]
                      \<and> strat_first s' = strat_first s \<and> strat_last s' = strat_last s)
     (ascending_pass n net a s)"
  unfolding ascending_pass_def by (rule query_pass) simp_all

lemma descending_pass_searches:
  "ends_with (\<lambda>s'. searches s' = searches s @ [(strat_first s, strat_last s, ''desc'', ''no'')]
                      \<and> strat_first s' = strat_first s \<and> strat_last s' = strat_last s)
     (descending_pass n net a s)"
  unfolding descending_pass_def by (rule query_pass) simp_all

lemma license_ascending_searches:
  "ends_with (\<lambda>s'. searches s' = searches s @ [(strat_first s, strat_last s, ''asc'', lic)]
                      \<and> strat_first s' = strat_first s \<and> strat_last s' = strat_last s)
     (license_ascending n net a lic s)"
proof -
  have "ends_with (\<lambda>s'. searches s' = searches (s\<lparr>current_license := lic\<rparr>)
                          @ [(strat_first s, strat_last s, ''asc'', lic)]
                      \<and> strat_first s' = strat_first (s\<lparr>current_license := lic\<rparr>)
                      \<and> strat_last s' = strat_last (s\<lparr>current_license := lic\<rparr>))
     (license_ascending n net a lic s)"
    unfolding license_ascending_def by (rule query_pass) simp_all
  then show ?thesis by simp
qed

lemma license_descending_searches:
  "ends_with (\<lambda>s'. searches s' = searches s @ [(strat_first s, strat_last s, ''desc'', lic)]
                      \<and> strat_first s' = strat_first s \<and> strat_last s' = strat_last s)
     (license_descending n net a lic s)"
  unfolding license_descending_def by (rule query_pass) simp_all

lemma ends_with_final: "ends_with P m \<Longrightarrow> final_state m = Some s' \<Longrightarrow> P s'"
  by (cases m) (simp_all add: final_state_def)

lemma ends_with_conj:
  assumes "ends_with P m" and "ends_with Q m"
  shows "ends_with (\<lambda>s. P s \<and> Q s) m"
  using assms by (cases m) simp_all

lemma query_pass_sent:
  assumes g: "\<And>c s1. trace (g c s1) = trace s1" and h: "\<And>s1. trace (h s1) = trace s1"
  shows "ends_with (sent_first a (search_url a lo hi order lic) s)
     (bind (search n net a lo hi order lic s)
        (\<lambda>res s1. case total_count res of
                     None \<Rightarrow> Raise DecodeError (h s1)
                   | Some c \<Rightarrow> download_all_repos n net a res (g c s1)))"
proof (rule ends_with_bind)
  show "ends_with (sent_first a (search_url a lo hi order lic) s)
      (search n net a lo hi order lic s)"
    by (rule search_sent_first)
next
  fix res s1
  assume r: "search n net a lo hi order lic s = Return res s1"
  with search_sent_first[of a lo hi order lic s n net]
  have f: "sent_first a (search_url a lo hi order lic) s s1" by simp
  show "ends_with (sent_first a (search_url a lo hi order lic) s)
     (case total_count res of
        None \<Rightarrow> Raise DecodeError (h s1)
      | Some c \<Rightarrow> download_all_repos n net a res (g c s1))"
  proof (cases "total_count res")
    case None
    then show ?thesis using f h by (simp add: sent_first_def)
  next
    case (Some c)
    have "trace_grows s1 (g c s1)" by (simp add: trace_grows_def g)
    then have "ends_with (trace_grows s1) (download_all_repos n net a res (g c s1))"
      using download_all_repos_grows by (rule grows_after)
    then have "ends_with (sent_first a (search_url a lo hi order lic) s)
        (download_all_repos n net a res (g c s1))"
      by (rule ends_with_mono) (rule sent_first_after[OF f])
    with Some show ?thesis by simp
  qed
qed

lemma ascending_pass_ends:
  "ends_with (\<lambda>s'. searches s' = searches s @ [(strat_first s, strat_last s, ''asc'', ''no'')]
                \<and> strat_first s' = strat_first s \<and> strat_last s' = strat_last s
                \<and> sent_first a (search_url a (strat_first s) (strat_last s) ''asc'' ''no'') s s')
     (ascending_pass n net a s)"
proof -
  have "ends_with (sent_first a (search_url a (strat_first s) (strat_last s) ''asc'' ''no'') s)
      (ascending_pass n net a s)"
    unfolding ascending_pass_def by (rule query_pass_sent) simp_all
  with ascending_pass_searches
  have "ends_with (\<lambda>s'. (searches s' = searches s @ [(strat_first s, strat_last s, ''asc'', ''no'')]
                \<and> strat_first s' = strat_first s \<and> strat_last s' = strat_last s)
                \<and> sent_first a (search_url a (strat_first s) (strat_last s) ''asc'' ''no'') s s')
     (ascending_pass n net a s)"
    by (rule ends_with_conj)
  then show ?thesis by (rule ends_with_mono) simp
qed

lemma descending_pass_ends:
  "ends_with (\<lambda>s'. searches s' = searches s @ [(strat_first s, strat_last s, ''desc'', ''no'')]
                \<and> sent_first a (search_url a (strat_first s) (strat_last s) ''desc'' ''no'') s s')
     (descending_pass n net a s)"
proof -
  have "ends_with (sent_first a (search_url a (strat_first s) (strat_last s) ''desc'' ''no'') s)
      (descending_pass n net a s)"
    unfolding descending_pass_def by (rule query_pass_sent) simp_all
  with descending_pass_searches
  have "ends_with (\<lambda>s'. (searches s' = searches s @ [(strat_first s, strat_last s, ''desc'', ''no'')]
                \<and> strat_first s' = strat_first s \<and> strat_last s' = strat_last s)
                \<and> sent_first a (search_url a (strat_first s) (strat_last s) ''desc'' ''no'') s s')
     (descending_pass n net a s)"
    by (rule ends_with_conj)
  then show ?thesis by (rule ends_with_mono) simp
qed

lemma license_ascending_ends:
  "ends_with (\<lambda>s'. searches s' = searches s @ [(strat_first s, strat_last s, ''asc'', lic)]
                \<and> strat_first s' = strat_first s \<and> strat_last s' = strat_last s
                \<and> sent_first a (search_url a (strat_first s) (strat_last s) ''asc'' lic) s s')
     (license_ascending n net a lic s)"
proof -
  let ?s = "s\<lparr>current_license := lic\<rparr>"
  have e: "sent_first a u ?s = sent_first a u s" for u
    by (rule ext) (simp add: sent_first_def throttle_sleep_def sleep_def)
  have "ends_with (sent_first a (search_url a (strat_first s) (strat_last s) ''asc'' lic) ?s)
      (license_ascending n net a lic s)"
    unfolding license_ascending_def by (rule query_pass_sent) simp_all
  then have "ends_with (sent_first a (search_url a (strat_first s) (strat_last s) ''asc'' lic) s)
      (license_ascending n net a lic s)"
    by (simp only: e)
  with license_ascending_searches
  have "ends_with (\<lambda>s'. (searches s' = searches s @ [(strat_first s, strat_last s, ''asc'', lic)]
                \<and> strat_first s' = strat_first s \<and> strat_last s' = strat_last s)
                \<and> sent_first a (search_url a (strat_first s) (strat_last s) ''asc'' lic) s s')
     (license_ascending n net a lic s)"
    by (rule ends_with_conj)
  then show ?thesis by (rule ends_with_mono) simp
qed

lemma license_descending_ends:
  "ends_with (\<lambda>s'. searches s' = searches s @ [(strat_first s, strat_last s, ''desc'', lic)]
                \<and> sent_first a (search_url a (strat_first s) (strat_last s) ''desc'' lic) s s')
     (license_descending n net a lic s)"
proof -
  have "ends_with (sent_first a (search_url a (strat_first s) (strat_last s) ''desc'' lic) s)
      (license_descending n net a lic s)"
    unfolding license_descending_def by (rule query_pass_sent) simp_all
  with license_descending_searches
  have "ends_with (\<lambda>s'. (searches s' = searches s @ [(strat_first s, strat_last s, ''desc'', lic)]
                \<and> strat_first s' = strat_first s \<and> strat_last s' = strat_last s)
                \<and> sent_first a (search_url a (strat_first s) (strat_last s) ''desc'' lic) s s')
     (license_descending n net a lic s)"
    by (rule ends_with_conj)
  then show ?thesis by (rule ends_with_mono) simp
qed

text \<open>
  Two passes in a row, the second one only when the population after the first is above
  1000: what the first pass ends in, and how the whole ends for each outcome of the first.
\<close>

lemma two_passes:
  fixes s s1 :: globals and up_pass :: "unit result" and down_pass :: "globals \<Rightarrow> unit result"
  assumes up: "ends_with (\<lambda>s'. searches s' = searches s @ [q1]
                  \<and> strat_first s' = strat_first s \<and> strat_last s' = strat_last s
                  \<and> sent_first a u1 s s') up_pass"
    and down: "\<forall>t. strat_first t = strat_first s \<and> strat_last t = strat_last s \<longrightarrow>
        ends_with (\<lambda>s'. searches s' = searches t @ [q2] \<and> sent_first a u2 t s') (down_pass t)"
  shows "ends_with (\<lambda>s'. searches s' = searches s @ [q1] \<and> sent_first a u1 s s') up_pass
     \<and> (up_pass = Return y s1 \<and> pop_repo s1 > 1000 \<longrightarrow>
          bind up_pass (\<lambda>_ t. if pop_repo t > 1000 then down_pass t else Return () t)
            = down_pass s1
          \<and> ends_with (\<lambda>s'. searches s' = searches s @ [q1, q2] \<and> sent_first a u2 s1 s')
              (bind up_pass (\<lambda>_ t. if pop_repo t > 1000 then down_pass t else Return () t)))
     \<and> (up_pass = Return y s1 \<and> pop_repo s1 \<le> 1000 \<longrightarrow>
          bind up_pass (\<lambda>_ t. if pop_repo t > 1000 then down_pass t else Return () t)
            = Return () s1)
     \<and> ((\<forall>y t. up_pass \<noteq> Return y t) \<longrightarrow>
          bind up_pass (\<lambda>_ t. if pop_repo t > 1000 then down_pass t else Return () t)
            = up_pass)"
proof (intro conjI impI)
  show "ends_with (\<lambda>s'. searches s' = searches s @ [q1] \<and> sent_first a u1 s s') up_pass"
    using up by (rule ends_with_mono) simp
next
  assume h: "up_pass = Return y s1 \<and> pop_repo s1 > 1000"
  then show e: "bind up_pass (\<lambda>_ t. if pop_repo t > 1000 then down_pass t else Return () t)
      = down_pass s1"
    by (simp add: bind_def)
  from up h have s1: "searches s1 = searches s @ [q1]" "strat_first s1 = strat_first s"
    "strat_last s1 = strat_last s" by simp_all
  have "ends_with (\<lambda>s'. searches s' = searches s @ [q1, q2] \<and> sent_first a u2 s1 s')
      (down_pass s1)"
    using down[rule_format, OF conjI[OF s1(2,3)]] by (rule ends_with_mono) (simp add: s1)
  then show "ends_with (\<lambda>s'. searches s' = searches s @ [q1, q2] \<and> sent_first a u2 s1 s')
      (bind up_pass (\<lambda>_ t. if pop_repo t > 1000 then down_pass t else Return () t))"
    by (simp only: e)
next
  assume "up_pass = Return y s1 \<and> pop_repo s1 \<le> 1000"
  then show "bind up_pass (\<lambda>_ t. if pop_repo t > 1000 then down_pass t else Return () t)
      = Return () s1"
    by (simp add: bind_def)
next
  assume "\<forall>y t. up_pass \<noteq> Return y t"
  then show "bind up_pass (\<lambda>_ t. if pop_repo t > 1000 then down_pass t else Return () t)
      = up_pass"
    by (cases up_pass) (simp_all add: bind_def)
qed

text \<open>
  C5. The sampling of a stratum without licence filter calls \<open>search\<close> for the
  ascending query, and every state the ascending pass ends in comes after the request
  of that query was sent. When the ascending pass returns with a population above 1000,
  the sampling goes on as the descending pass from there: it calls \<open>search\<close> exactly
  once more, for the descending query of the same stratum, and every state it ends in
  (returning, raising or exiting) comes after the request of the descending query was
  sent. When the ascending pass returns with a population of at most 1000, the sampling
  returns in the state the ascending pass has left: no call of \<open>search\<close> and no request
  follows. When the ascending pass does not return, the sampling ends as that pass
  ended. The same holds for each licence when the licence filter is on, where the
  population is the one accumulated over the licences of the stratum so far.
\<close>

theorem result_cap_stretching:
  "ends_with (\<lambda>s'. searches s' = searches s @ [(strat_first s, strat_last s, ''asc'', ''no'')]
                \<and> sent_first a (search_url a (strat_first s) (strat_last s) ''asc'' ''no'') s s')
      (ascending_pass n net a s)
   \<and> (ascending_pass n net a s = Return y s1 \<and> pop_repo s1 > 1000 \<longrightarrow>
        sample_unlicensed n net a s = descending_pass n net a s1
        \<and> ends_with (\<lambda>s'. searches s' = searches s @
                              [(strat_first s, strat_last s, ''asc'', ''no''),
                               (strat_first s, strat_last s, ''desc'', ''no'')]
                        \<and> sent_first a (search_url a (strat_first s) (strat_last s) ''desc'' ''no'')
                            s1 s')
            (sample_unlicensed n net a s))
   \<and> (ascending_pass n net a s = Return y s1 \<and> pop_repo s1 \<le> 1000 \<longrightarrow>
        sample_unlicensed n net a s = Return () s1)
   \<and> ((\<forall>y t. ascending_pass n net a s \<noteq> Return y t) \<longrightarrow>
        sample_unlicensed n net a s = ascending_pass n net a s)
   \<and> ends_with (\<lambda>s'. searches s' = searches s @ [(strat_first s, strat_last s, ''asc'', lic)]
                \<and> sent_first a (search_url a (strat_first s) (strat_last s) ''asc'' lic) s s')
      (license_ascending n net a lic s)
   \<and> (license_ascending n net a lic s = Return y s1 \<and> pop_repo s1 > 1000 \<longrightarrow>
        sample_license n net a lic s = license_descending n net a lic s1
        \<and> ends_with (\<lambda>s'. searches s' = searches s @
                              [(strat_first s, strat_last s, ''asc'', lic),
                               (strat_first s, strat_last s, ''desc'', lic)]
                        \<and> sent_first a (search_url a (strat_first s) (strat_last s) ''desc'' lic)
                            s1 s')
            (sample_license n net a lic s))
   \<and> (license_ascending n net a lic s = Return y s1 \<and> pop_repo s1 \<le> 1000 \<longrightarrow>
        sample_license n net a lic s = Return () s1)
   \<and> ((\<forall>y t. license_ascending n net a lic s \<noteq> Return y t) \<longrightarrow>
        sample_license n net a lic s = license_ascending n net a lic s)"
proof -
  have d: "\<forall>t. strat_first t = strat_first s \<and> strat_last t = strat_last s \<longrightarrow>
      ends_with (\<lambda>s'. searches s' = searches t @ [(strat_first s, strat_last s, ''desc'', ''no'')]
                \<and> sent_first a (search_url a (strat_first s) (strat_last s) ''desc'' ''no'') t s')
        (descending_pass n net a t)"
  proof (intro allI impI)
    fix t :: globals
    assume "strat_first t = strat_first s \<and> strat_last t = strat_last s"
    then have b: "strat_first t = strat_first s" "strat_last t = strat_last s" by simp_all
    show "ends_with (\<lambda>s'. searches s' = searches t @ [(strat_first s, strat_last s, ''desc'', ''no'')]
                \<and> sent_first a (search_url a (strat_first s) (strat_last s) ''desc'' ''no'') t s')
        (descending_pass n net a t)"
      using descending_pass_ends[of t a n net] by (simp only: b)
  qed
  have l: "\<forall>t. strat_first t = strat_first s \<and> strat_last t = strat_last s \<longrightarrow>
      ends_with (\<lambda>s'. searches s' = searches t @ [(strat_first s, strat_last s, ''desc'', lic)]
                \<and> sent_first a (search_url a (strat_first s) (strat_last s) ''desc'' lic) t s')
        (license_descending n net a lic t)"
  proof (intro allI impI)
    fix t :: globals
    assume "strat_first t = strat_first s \<and> strat_last t = strat_last s"
    then have b: "strat_first t = strat_first s" "strat_last t = strat_last s" by simp_all
    show "ends_with (\<lambda>s'. searches s' = searches t @ [(strat_first s, strat_last s, ''desc'', lic)]
                \<and> sent_first a (search_url a (strat_first s) (strat_last s) ''desc'' lic) t s')
        (license_descending n net a lic t)"
      using license_descending_ends[of t lic a n net] by (simp only: b)
  qed
  note u = two_passes[where up_pass = "ascending_pass n net a s"
      and down_pass = "descending_pass n net a" and y = y and ?s1.0 = s1,
      OF ascending_pass_ends d, folded sample_unlicensed_def]
  note v = two_passes[where up_pass = "license_ascending n net a lic s"
      and down_pass = "license_descending n net a lic" and y = y and ?s1.0 = s1,
      OF license_ascending_ends l, folded sample_license_def]
  show ?thesis using u v by (intro conjI) (elim conjE, assumption)+
qed

text \<open>
  Runs of the sampling: a stratum with 1001 repositories, one with a single repository
  on two pages, and one whose search cannot connect; the licence \<open>mit\<close> with 1200
  and with 3 repositories, after licences with 7 repositories, and a licence whose search
  cannot connect. Each with the searches called and the requests sent.
\<close>

theorem result_cap_stretching_witness:
  "map_option pop_repo (final_state (ascending_pass 2 net_stable args_plain sampling1)) = Some 1001
   \<and> map_option (\<lambda>s. (searches s, trace s))
        (final_state (sample_unlicensed 2 net_stable args_plain sampling1))
       = Some ([(1, 5, ''asc'', ''no''), (1, 5, ''desc'', ''no'')],
               [Request url_asc_1_5, Request url_desc_1_5, Request url_page2])
   \<and> map_option pop_repo (final_state (ascending_pass 2 net_pages args_plain sampling1)) = Some 1
   \<and> map_option (\<lambda>s. (searches s, trace s))
        (final_state (sample_unlicensed 2 net_pages args_plain sampling1))
       = Some ([(1, 5, ''asc'', ''no'')],
               [Request url_asc_1_5, Request url_tree1, Request url_page2, Request url_tree2])
   \<and> (case sample_unlicensed 2 net_flaky args_plain sampling1 of
         Exit s' \<Rightarrow> searches s' = [(1, 5, ''asc'', ''no'')] \<and> trace s' = [Request url_asc_1_5]
       | _ \<Rightarrow> False)
   \<and> map_option pop_repo (final_state (license_ascending 2 net_mit args_plain ''mit'' sampling_mit))
       = Some 1207
   \<and> map_option (\<lambda>s. (searches s, trace s))
        (final_state (sample_license 2 net_mit args_plain ''mit'' sampling_mit))
       = Some ([(1, 5, ''asc'', ''mit''), (1, 5, ''desc'', ''mit'')],
               [Request url_asc_mit, Request url_desc_mit, Request url_page2])
   \<and> map_option pop_repo (final_state (license_ascending 2 net_few args_plain ''mit'' sampling_mit))
       = Some 10
   \<and> map_option (\<lambda>s. (searches s, trace s))
        (final_state (sample_license 2 net_few args_plain ''mit'' sampling_mit))
       = Some ([(1, 5, ''asc'', ''mit'')], [Request url_asc_mit])
   \<and> (case sample_license 2 net_few args_plain ''gpl-3.0'' sampling_mit of
         Exit s' \<Rightarrow> searches s' = [(1, 5, ''asc'', ''gpl-3.0'')]
           \<and> trace s' = [Request (search_url args_plain 1 5 ''asc'' ''gpl-3.0'')]
       | _ \<Rightarrow> False)
   \<and> search_url args_plain 1 5 ''asc'' ''no'' = url_asc_1_5
   \<and> search_url args_plain 1 5 ''desc'' ''no'' = url_desc_1_5
   \<and> search_url args_plain 1 5 ''asc'' ''mit'' = url_asc_mit
   \<and> search_url args_plain 1 5 ''desc'' ''mit'' = url_desc_mit"
proof -
  have s0: "searches sampling1 = []" "strat_first sampling1 = 1" "strat_last sampling1 = 5"
    "searches sampling_mit = []" "strat_first sampling_mit = 1" "strat_last sampling_mit = 5"
    by (simp_all add: sampling1_def sampling_mit_def start0_def init_globals_def args0_def)
  note un = result_cap_stretching[where a = args_plain and s = sampling1 and y = "()"
      and lic = "''mit''"]
  note li = result_cap_stretching[where a = args_plain and s = sampling_mit and y = "()"]
  have pa: "map_option pop_repo (final_state (ascending_pass 2 net_stable args_plain sampling1))
      = Some 1001"
    by code_simp
  have "case ascending_pass 2 net_stable args_plain sampling1 of
          Return x s1 \<Rightarrow> True | _ \<Rightarrow> False"
    by code_simp
  then obtain s1 where a1: "ascending_pass 2 net_stable args_plain sampling1 = Return () s1"
    by (auto split: result.splits)
  from pa a1 have p1: "pop_repo s1 > 1000" by (simp add: final_state_def)
  have w1: "ends_with (\<lambda>s'. searches s' = searches sampling1 @
                              [(strat_first sampling1, strat_last sampling1, ''asc'', ''no''),
                               (strat_first sampling1, strat_last sampling1, ''desc'', ''no'')]
                        \<and> sent_first args_plain (search_url args_plain (strat_first sampling1)
                              (strat_last sampling1) ''desc'' ''no'') s1 s')
            (sample_unlicensed 2 net_stable args_plain sampling1)"
    using un[where n = 2 and net = net_stable and ?s1.0 = s1, THEN conjunct2, THEN conjunct1,
        rule_format, OF conjI[OF a1 p1]]
    by (rule conjunct2)
  have t1: "map_option trace (final_state (sample_unlicensed 2 net_stable args_plain sampling1))
      = Some [Request url_asc_1_5, Request url_desc_1_5, Request url_page2]"
    by code_simp
  then obtain s' where f1: "final_state (sample_unlicensed 2 net_stable args_plain sampling1)
      = Some s'" by auto
  from ends_with_final[OF w1 f1]
  have "searches s' = [(1, 5, ''asc'', ''no''), (1, 5, ''desc'', ''no'')]" by (simp add: s0)
  with t1 f1 have c2: "map_option (\<lambda>s. (searches s, trace s))
        (final_state (sample_unlicensed 2 net_stable args_plain sampling1))
       = Some ([(1, 5, ''asc'', ''no''), (1, 5, ''desc'', ''no'')],
               [Request url_asc_1_5, Request url_desc_1_5, Request url_page2])"
    by simp
  have pb: "map_option pop_repo (final_state (ascending_pass 2 net_pages args_plain sampling1))
      = Some 1"
    by code_simp
  have "case ascending_pass 2 net_pages args_plain sampling1 of
          Return x s1 \<Rightarrow> True | _ \<Rightarrow> False"
    by code_simp
  then obtain s2 where a2: "ascending_pass 2 net_pages args_plain sampling1 = Return () s2"
    by (auto split: result.splits)
  from pb a2 have p2: "pop_repo s2 \<le> 1000" by (simp add: final_state_def)
  have e2: "sample_unlicensed 2 net_pages args_plain sampling1 = Return () s2"
    using un[where n = 2 and net = net_pages and ?s1.0 = s2, THEN conjunct2, THEN conjunct2,
        THEN conjunct1, rule_format, OF conjI[OF a2 p2]] .
  have "map_option (\<lambda>s. (searches s, trace s))
        (final_state (ascending_pass 2 net_pages args_plain sampling1))
       = Some ([(1, 5, ''asc'', ''no'')],
               [Request url_asc_1_5, Request url_tree1, Request url_page2, Request url_tree2])"
    by code_simp
  then have c4: "map_option (\<lambda>s. (searches s, trace s))
        (final_state (sample_unlicensed 2 net_pages args_plain sampling1))
       = Some ([(1, 5, ''asc'', ''no'')],
               [Request url_asc_1_5, Request url_tree1, Request url_page2, Request url_tree2])"
    by (simp only: e2 a2)
  have x3: "case ascending_pass 2 net_flaky args_plain sampling1 of
         Exit s' \<Rightarrow> searches s' = [(1, 5, ''asc'', ''no'')] \<and> trace s' = [Request url_asc_1_5]
       | _ \<Rightarrow> False"
    by code_simp
  then have "\<forall>y t. ascending_pass 2 net_flaky args_plain sampling1 \<noteq> Return y t"
    by (auto split: result.splits)
  then have e3: "sample_unlicensed 2 net_flaky args_plain sampling1
      = ascending_pass 2 net_flaky args_plain sampling1"
    using un[where n = 2 and net = net_flaky, THEN conjunct2, THEN conjunct2,
        THEN conjunct2, THEN conjunct1] by (rule rev_mp)
  from x3 have c5: "case sample_unlicensed 2 net_flaky args_plain sampling1 of
         Exit s' \<Rightarrow> searches s' = [(1, 5, ''asc'', ''no'')] \<and> trace s' = [Request url_asc_1_5]
       | _ \<Rightarrow> False"
    by (simp only: e3)
  have pl: "map_option pop_repo (final_state (license_ascending 2 net_mit args_plain ''mit''
      sampling_mit)) = Some 1207"
    by code_simp
  have "case license_ascending 2 net_mit args_plain ''mit'' sampling_mit of
          Return x s1 \<Rightarrow> True | _ \<Rightarrow> False"
    by code_simp
  then obtain s4 where a4: "license_ascending 2 net_mit args_plain ''mit'' sampling_mit = Return () s4"
    by (auto split: result.splits)
  from pl a4 have p4: "pop_repo s4 > 1000" by (simp add: final_state_def)
  have w4: "ends_with (\<lambda>s'. searches s' = searches sampling_mit @
                              [(strat_first sampling_mit, strat_last sampling_mit, ''asc'', ''mit''),
                               (strat_first sampling_mit, strat_last sampling_mit, ''desc'', ''mit'')]
                        \<and> sent_first args_plain (search_url args_plain (strat_first sampling_mit)
                              (strat_last sampling_mit) ''desc'' ''mit'') s4 s')
            (sample_license 2 net_mit args_plain ''mit'' sampling_mit)"
    using li[where n = 2 and net = net_mit and ?s1.0 = s4 and lic = "''mit''",
        THEN conjunct2, THEN conjunct2, THEN conjunct2, THEN conjunct2, THEN conjunct2,
        THEN conjunct1, rule_format, OF conjI[OF a4 p4]]
    by (rule conjunct2)
  have t4: "map_option trace (final_state (sample_license 2 net_mit args_plain ''mit'' sampling_mit))
      = Some [Request url_asc_mit, Request url_desc_mit, Request url_page2]"
    by code_simp
  then obtain t' where f4: "final_state (sample_license 2 net_mit args_plain ''mit'' sampling_mit)
      = Some t'" by auto
  from ends_with_final[OF w4 f4]
  have "searches t' = [(1, 5, ''asc'', ''mit''), (1, 5, ''desc'', ''mit'')]" by (simp add: s0)
  with t4 f4 have c7: "map_option (\<lambda>s. (searches s, trace s))
        (final_state (sample_license 2 net_mit args_plain ''mit'' sampling_mit))
       = Some ([(1, 5, ''asc'', ''mit''), (1, 5, ''desc'', ''mit'')],
               [Request url_asc_mit, Request url_desc_mit, Request url_page2])"
    by simp
  have pf: "map_option pop_repo (final_state (license_ascending 2 net_few args_plain ''mit''
      sampling_mit)) = Some 10"
    by code_simp
  have "case license_ascending 2 net_few args_plain ''mit'' sampling_mit of
          Return x s1 \<Rightarrow> True | _ \<Rightarrow> False"
    by code_simp
  then obtain s5 where a5: "license_ascending 2 net_few args_plain ''mit'' sampling_mit = Return () s5"
    by (auto split: result.splits)
  from pf a5 have p5: "pop_repo s5 \<le> 1000" by (simp add: final_state_def)
  have e5: "sample_license 2 net_few args_plain ''mit'' sampling_mit = Return () s5"
    using li[where n = 2 and net = net_few and ?s1.0 = s5 and lic = "''mit''",
        THEN conjunct2, THEN conjunct2, THEN conjunct2, THEN conjunct2, THEN conjunct2,
        THEN conjunct2, THEN conjunct1, rule_format, OF conjI[OF a5 p5]] .
  have "map_option (\<lambda>s. (searches s, trace s))
        (final_state (license_ascending 2 net_few args_plain ''mit'' sampling_mit))
       = Some ([(1, 5, ''asc'', ''mit'')], [Request url_asc_mit])"
    by code_simp
  then have c9: "map_option (\<lambda>s. (searches s, trace s))
        (final_state (sample_license 2 net_few args_plain ''mit'' sampling_mit))
       = Some ([(1, 5, ''asc'', ''mit'')], [Request url_asc_mit])"
    by (simp only: e5 a5)
  have x6: "case license_ascending 2 net_few args_plain ''gpl-3.0'' sampling_mit of
         Exit s' \<Rightarrow> searches s' = [(1, 5, ''asc'', ''gpl-3.0'')]
           \<and> trace s' = [Request (search_url args_plain 1 5 ''asc'' ''gpl-3.0'')]
       | _ \<Rightarrow> False"
    by code_simp
  then have "\<forall>y t. license_ascending 2 net_few args_plain ''gpl-3.0'' sampling_mit \<noteq> Return y t"
    by (auto split: result.splits)
  then have e6: "sample_license 2 net_few args_plain ''gpl-3.0'' sampling_mit
      = license_ascending 2 net_few args_plain ''gpl-3.0'' sampling_mit"
    using li[where n = 2 and net = net_few and lic = "''gpl-3.0''",
        THEN conjunct2, THEN conjunct2, THEN conjunct2, THEN conjunct2, THEN conjunct2,
        THEN conjunct2, THEN conjunct2] by (rule rev_mp)
  from x6 have c10: "case sample_license 2 net_few args_plain ''gpl-3.0'' sampling_mit of
         Exit s' \<Rightarrow> searches s' = [(1, 5, ''asc'', ''gpl-3.0'')]
           \<and> trace s' = [Request (search_url args_plain 1 5 ''asc'' ''gpl-3.0'')]
       | _ \<Rightarrow> False"
    by (simp only: e6)
  have u: "search_url args_plain 1 5 ''asc'' ''no'' = url_asc_1_5"
    "search_url args_plain 1 5 ''desc'' ''no'' = url_desc_1_5"
    "search_url args_plain 1 5 ''asc'' ''mit'' = url_asc_mit"
    "search_url args_plain 1 5 ''desc'' ''mit'' = url_desc_mit"
    by code_simp+
  show ?thesis
    using pa c2 pb c4 c5 pl c7 pf c9 c10 u by (intro conjI)
qed

section \<open>Properties of the population estimate\<close>

lemma finish_returns:
  assumes "bind (if status_code res \<noteq> 200 then handle_log_response res s else Return () s)
        (\<lambda>_ s3. bind (raise_for_status res s3) (\<lambda>_ s4. Return res s4)) = Return res' s'"
  shows "res' = res"
  using assms
  by (auto simp: bind_def handle_log_response_def raise_for_status_def split: if_splits)

lemma get_from_net:
  "get n net a url ps s = Return res s' \<Longrightarrow>
     \<exists>k u r. net k u = Response r \<and> total_count res = total_count r"
  and "handle_rate_limit_error n net a res0 s = Return res s' \<Longrightarrow>
     \<exists>k u r. net k u = Response r \<and> total_count res = total_count r"
proof (induction n net a url ps s and n net a res0 s arbitrary: res s' and res s'
    rule: get_handle_rate_limit_error.induct)
  case (1 net a url ps s)
  then show ?case by simp
next
  case (2 n net a url ps s)
  let ?s1 = "throttle_sleep a s"
  let ?u = "prepare url ps"
  show ?case
  proof (cases "net (length (trace ?s1)) ?u")
    case ConnectionError
    with "2.prems" show ?thesis by (simp add: signal_handler_def)
  next
    case (Response r)
    let ?res = "r\<lparr>resp_url := ?u\<rparr>"
    let ?s2 = "count_call ?res (request_sent ?u ?s1)"
    show ?thesis
    proof (cases "status_code r = 403")
      case True
      with "2.prems" Response have "handle_rate_limit_error n net a ?res ?s2 = Return res s'"
        by (simp add: Let_def)
      with "2.IH"[OF refl Response refl refl] True show ?thesis by simp
    next
      case False
      with "2.prems" Response have
        "bind (if status_code ?res \<noteq> 200 then handle_log_response ?res ?s2 else Return () ?s2)
          (\<lambda>_ s3. bind (raise_for_status ?res s3) (\<lambda>_ s4. Return ?res s4)) = Return res s'"
        by (simp add: Let_def)
      then have "res = ?res" by (rule finish_returns)
      then have "total_count res = total_count r" by (simp add: total_count_def)
      with Response show ?thesis by blast
    qed
  qed
next
  case (3 n net a res0 s)
  then show ?case by simp
qed

lemma pages_loop_bound:
  assumes b: "\<And>k u r c. net k u = Response r \<Longrightarrow> total_count r = Some c \<Longrightarrow> c + off \<le> m"
  shows "current_cumulative_pop s = off \<Longrightarrow> pop_repo s \<le> m \<Longrightarrow>
     ends_with (\<lambda>s'. pop_repo s' \<le> m) (pages_loop n net a res s)"
proof (induction n arbitrary: res s)
  case 0
  then show ?case by simp
next
  case (Suc n)
  show ?case
  proof (cases "link_next res")
    case None
    with Suc.prems show ?thesis by simp
  next
    case (Some u)
    have "ends_with (\<lambda>s'. pop_repo s' \<le> m)
        (bind (get n net a u [] s)
            (\<lambda>res' s1.
               case total_count res' of
                 None \<Rightarrow> Raise DecodeError s1
               | Some c \<Rightarrow>
                   bind (download_repos_from_page n net a res'
                           (s1\<lparr>pop_repo := max (pop_repo s1) (c + current_cumulative_pop s1)\<rparr>))
                     (\<lambda>_ s2. if sam_repo s2 \<ge> pop_repo s2 then Return () s2
                              else pages_loop n net a res' s2)))"
    proof (rule ends_with_bind)
      show "ends_with (\<lambda>s'. pop_repo s' \<le> m) (get n net a u [] s)"
        using get_frame(1) by (rule ends_with_mono) (simp add: client_frame_iff Suc.prems)
    next
      fix res' s1
      assume g: "get n net a u [] s = Return res' s1"
      have "ends_with (client_frame s) (get n net a u [] s)" by (rule get_frame)
      with g have s1: "pop_repo s1 = pop_repo s" "current_cumulative_pop s1 = off"
        by (simp_all add: client_frame_iff Suc.prems)
      show "ends_with (\<lambda>s'. pop_repo s' \<le> m)
          (case total_count res' of
                 None \<Rightarrow> Raise DecodeError s1
               | Some c \<Rightarrow>
                   bind (download_repos_from_page n net a res'
                           (s1\<lparr>pop_repo := max (pop_repo s1) (c + current_cumulative_pop s1)\<rparr>))
                     (\<lambda>_ s2. if sam_repo s2 \<ge> pop_repo s2 then Return () s2
                              else pages_loop n net a res' s2))"
      proof (cases "total_count res'")
        case None
        then show ?thesis using s1 Suc.prems by simp
      next
        case (Some c)
        from get_from_net(1)[OF g] Some obtain k v r where "net k v = Response r"
          "total_count r = Some c" by auto
        then have c: "c + off \<le> m" by (rule b)
        let ?s = "s1\<lparr>pop_repo := max (pop_repo s1) (c + current_cumulative_pop s1)\<rparr>"
        have le: "pop_repo ?s \<le> m" "current_cumulative_pop ?s = off"
          using c s1 Suc.prems by simp_all
        have "ends_with (\<lambda>s'. pop_repo s' \<le> m)
            (bind (download_repos_from_page n net a res' ?s)
                     (\<lambda>_ s2. if sam_repo s2 \<ge> pop_repo s2 then Return () s2
                              else pages_loop n net a res' s2))"
        proof (rule ends_with_bind)
          show "ends_with (\<lambda>s'. pop_repo s' \<le> m) (download_repos_from_page n net a res' ?s)"
            using download_repos_from_page_frame
            by (rule ends_with_mono) (use le in \<open>simp add: crawl_frame_def\<close>)
        next
          fix x s2
          assume d: "download_repos_from_page n net a res' ?s = Return x s2"
          have "ends_with (crawl_frame ?s) (download_repos_from_page n net a res' ?s)"
            by (rule download_repos_from_page_frame)
          with d have "crawl_frame ?s s2" by simp
          with le have s2: "pop_repo s2 \<le> m" "current_cumulative_pop s2 = off"
            by (simp_all add: crawl_frame_def)
          show "ends_with (\<lambda>s'. pop_repo s' \<le> m)
              (if sam_repo s2 \<ge> pop_repo s2 then Return () s2 else pages_loop n net a res' s2)"
            using s2 Suc.IH[OF s2(2,1)] by simp
        qed
        with Some show ?thesis by simp
      qed
    qed
    with Some show ?thesis by simp
  qed
qed

lemma download_all_repos_bound:
  assumes b: "\<And>k u r c. net k u = Response r \<Longrightarrow> total_count r = Some c \<Longrightarrow> c + off \<le> m"
    and s: "current_cumulative_pop s = off" "pop_repo s \<le> m"
  shows "ends_with (\<lambda>s'. pop_repo s' \<le> m) (download_all_repos n net a res s)"
  unfolding download_all_repos_def
proof (rule ends_with_bind)
  show "ends_with (\<lambda>s'. pop_repo s' \<le> m) (download_repos_from_page n net a res s)"
    using download_repos_from_page_frame
    by (rule ends_with_mono) (use s in \<open>simp add: crawl_frame_def\<close>)
next
  fix x s1
  assume d: "download_repos_from_page n net a res s = Return x s1"
  have "ends_with (crawl_frame s) (download_repos_from_page n net a res s)"
    by (rule download_repos_from_page_frame)
  with d have "crawl_frame s s1" by simp
  with s have f: "current_cumulative_pop s1 = off" "pop_repo s1 \<le> m"
    by (simp_all add: crawl_frame_def)
  show "ends_with (\<lambda>s'. pop_repo s' \<le> m) (pages_loop n net a res s1)"
    by (rule pages_loop_bound[where off = off]) (use b f in auto)
qed

lemma reconcile:
  assumes s: "search n net a lo hi order lic s = Return res s1"
    and d: "download_all_repos n net a res (s1\<lparr>pop_repo := max (pop_repo s1) p\<rparr>) = Return x s'"
  shows "max (pop_repo s) p \<le> pop_repo s'
     \<and> (link_next res = None
          \<or> (\<forall>k u r c. net k u = Response r \<and> total_count r = Some c
                \<longrightarrow> c + current_cumulative_pop s \<le> max (pop_repo s) p)
        \<longrightarrow> pop_repo s' = max (pop_repo s) p)"
proof -
  let ?s = "s1\<lparr>pop_repo := max (pop_repo s1) p\<rparr>"
  have "ends_with (client_frame (s\<lparr>searches := searches s @ [(lo, hi, order, lic)]\<rparr>))
     (search n net a lo hi order lic s)"
    by (rule search_frame)
  with s have p1: "pop_repo s1 = pop_repo s" "current_cumulative_pop s1 = current_cumulative_pop s"
    by (simp_all add: client_frame_iff)
  have "ends_with (pages_frame ?s) (download_all_repos n net a res ?s)"
    by (rule download_all_repos_frame)
  with d have le: "max (pop_repo s) p \<le> pop_repo s'" by (simp add: pages_frame_def p1)
  have one: "pop_repo s' = max (pop_repo s) p" if "link_next res = None"
    using download_all_repos_single[OF that d] by (simp add: crawl_frame_def p1)
  have all: "pop_repo s' = max (pop_repo s) p"
    if b: "\<forall>k u r c. net k u = Response r \<and> total_count r = Some c
                \<longrightarrow> c + current_cumulative_pop s \<le> max (pop_repo s) p"
  proof -
    have "ends_with (\<lambda>s'. pop_repo s' \<le> max (pop_repo s) p) (download_all_repos n net a res ?s)"
      by (rule download_all_repos_bound[where off = "current_cumulative_pop s"])
        (use b p1 in auto)
    with d have "pop_repo s' \<le> max (pop_repo s) p" by simp
    with le show ?thesis by (rule antisym[rotated])
  qed
  from le one all show ?thesis by blast
qed

lemma pages_loop_exact:
  "pages_loop n net a res s = Return x s' \<Longrightarrow>
     pop_repo s' = fold max (map (\<lambda>c. c + current_cumulative_pop s)
                                (further_counts n net a res s)) (pop_repo s)"
proof (induction n arbitrary: res s)
  case 0
  then show ?case by simp
next
  case (Suc n)
  show ?case
  proof (cases "link_next res")
    case None
    with Suc.prems show ?thesis by simp
  next
    case u: (Some u)
    show ?thesis
    proof (cases "get n net a u [] s")
      case g: (Return res' s1)
      have "ends_with (client_frame s) (get n net a u [] s)" by (rule get_frame(1))
      with g have s1: "pop_repo s1 = pop_repo s"
        "current_cumulative_pop s1 = current_cumulative_pop s"
        by (simp_all add: client_frame_iff)
      show ?thesis
      proof (cases "total_count res'")
        case None
        with Suc.prems u g show ?thesis by (simp add: bind_def)
      next
        case c: (Some c)
        let ?s = "s1\<lparr>pop_repo := max (pop_repo s1) (c + current_cumulative_pop s1)\<rparr>"
        show ?thesis
        proof (cases "download_repos_from_page n net a res' ?s")
          case d: (Return y s2)
          have "ends_with (crawl_frame ?s) (download_repos_from_page n net a res' ?s)"
            by (rule download_repos_from_page_frame)
          with d have s2: "pop_repo s2 = max (pop_repo s) (c + current_cumulative_pop s)"
            "current_cumulative_pop s2 = current_cumulative_pop s"
            by (simp_all add: crawl_frame_def s1)
          show ?thesis
          proof (cases "sam_repo s2 \<ge> pop_repo s2")
            case True
            with Suc.prems u g c d have "s' = s2" by (simp add: bind_def)
            moreover have "further_counts (Suc n) net a res s = [c]"
              using u g c d True by simp
            ultimately show ?thesis by (simp add: s2 max.commute)
          next
            case False
            with Suc.prems u g c d have "pages_loop n net a res' s2 = Return x s'"
              by (simp add: bind_def)
            then have "pop_repo s' = fold max (map (\<lambda>c. c + current_cumulative_pop s2)
                                (further_counts n net a res' s2)) (pop_repo s2)"
              by (rule Suc.IH)
            moreover have "further_counts (Suc n) net a res s = c # further_counts n net a res' s2"
              using u g c d False by simp
            ultimately show ?thesis by (simp add: s2 max.commute)
          qed
        next
          case (Raise e s2)
          with Suc.prems u g c show ?thesis by (simp add: bind_def)
        next
          case (Exit s2)
          with Suc.prems u g c show ?thesis by (simp add: bind_def)
        next
          case OutOfFuel
          with Suc.prems u g c show ?thesis by (simp add: bind_def)
        qed
      qed
    next
      case (Raise e s1)
      with Suc.prems u show ?thesis by (simp add: bind_def)
    next
      case (Exit s1)
      with Suc.prems u show ?thesis by (simp add: bind_def)
    next
      case OutOfFuel
      with Suc.prems u show ?thesis by (simp add: bind_def)
    qed
  qed
qed

lemma download_all_repos_exact:
  assumes "download_all_repos n net a res s = Return x s'"
  shows "pop_repo s' = fold max (map (\<lambda>c. c + current_cumulative_pop s)
                                (page_counts n net a res s)) (pop_repo s)"
proof (cases "download_repos_from_page n net a res s")
  case d: (Return y s1)
  have "ends_with (crawl_frame s) (download_repos_from_page n net a res s)"
    by (rule download_repos_from_page_frame)
  with d have s1: "pop_repo s1 = pop_repo s"
    "current_cumulative_pop s1 = current_cumulative_pop s"
    by (simp_all add: crawl_frame_def)
  from assms d have "pages_loop n net a res s1 = Return x s'"
    by (simp add: download_all_repos_def bind_def)
  then have "pop_repo s' = fold max (map (\<lambda>c. c + current_cumulative_pop s1)
                                (further_counts n net a res s1)) (pop_repo s1)"
    by (rule pages_loop_exact)
  with d show ?thesis by (simp add: page_counts_def s1)
next
  case (Raise e s1)
  with assms show ?thesis by (simp add: download_all_repos_def bind_def)
next
  case (Exit s1)
  with assms show ?thesis by (simp add: download_all_repos_def bind_def)
next
  case OutOfFuel
  with assms show ?thesis by (simp add: download_all_repos_def bind_def)
qed

lemma Max_readings:
  fixes p1 p2 :: int
  shows "Max (set (p1 # p2 # rs)) = fold max rs (max p1 p2)"
proof -
  have "Max (set (p1 # p2 # rs)) = fold max (p2 # rs) p1" by (rule Max.set_eq_fold)
  also have "\<dots> = fold max rs (max p1 p2)" by (simp add: max.commute)
  finally show ?thesis .
qed

lemma reconcile_exact:
  assumes s: "search n net a lo hi order lic s = Return res s1"
    and d: "download_all_repos n net a res (s1\<lparr>pop_repo := max (pop_repo s1) p\<rparr>) = Return x s'"
  shows "pop_repo s' = Max (set (pop_repo s # p # map (\<lambda>c. c + current_cumulative_pop s)
            (page_counts n net a res (s1\<lparr>pop_repo := max (pop_repo s1) p\<rparr>))))"
proof -
  have "ends_with (client_frame (s\<lparr>searches := searches s @ [(lo, hi, order, lic)]\<rparr>))
     (search n net a lo hi order lic s)"
    by (rule search_frame)
  with s have p1: "pop_repo s1 = pop_repo s" "current_cumulative_pop s1 = current_cumulative_pop s"
    by (simp_all add: client_frame_iff)
  from download_all_repos_exact[OF d] show ?thesis
    by (simp only: Max_readings) (simp add: p1)
qed

text \<open>
  C4, as amended. Let \<open>p1\<close> be the population when the descending search of a stratum is
  issued, and \<open>p2\<close> the count of its first page (plus the offset of the licence when the
  licence filter is on). When the descending pass returns, the population is the maximum
  of \<open>p1\<close>, \<open>p2\<close> and the readings of the further pages that the pass has fetched (each
  plus the offset of the licence). So it is at least \<open>max(p1, p2)\<close>, and it is
  \<open>max(p1, p2)\<close> when the descending search has one page only, or when no response of
  the API counts more (plus the offset) than \<open>max(p1, p2)\<close>.
\<close>

theorem population_reconciliation:
  "(search n net a (strat_first s) (strat_last s) ''desc'' ''no'' s = Return res s1
      \<and> total_count res = Some p2 \<and> descending_pass n net a s = Return x s'
    \<longrightarrow> max (pop_repo s) p2 \<le> pop_repo s'
        \<and> (link_next res = None
             \<or> (\<forall>k u r c. net k u = Response r \<and> total_count r = Some c
                   \<longrightarrow> c + current_cumulative_pop s \<le> max (pop_repo s) p2)
           \<longrightarrow> pop_repo s' = max (pop_repo s) p2)
        \<and> pop_repo s' =
            Max (set (pop_repo s # p2 # map (\<lambda>c. c + current_cumulative_pop s)
               (page_counts n net a res (s1\<lparr>pop_repo := max (pop_repo s1) p2\<rparr>)))))
   \<and> (search n net a (strat_first s) (strat_last s) ''desc'' lic s = Return res s1
      \<and> total_count res = Some p2 \<and> license_descending n net a lic s = Return x s'
    \<longrightarrow> max (pop_repo s) (p2 + current_cumulative_pop s) \<le> pop_repo s'
        \<and> (link_next res = None
             \<or> (\<forall>k u r c. net k u = Response r \<and> total_count r = Some c
                   \<longrightarrow> c + current_cumulative_pop s
                         \<le> max (pop_repo s) (p2 + current_cumulative_pop s))
           \<longrightarrow> pop_repo s' = max (pop_repo s) (p2 + current_cumulative_pop s))
        \<and> pop_repo s' =
            Max (set (pop_repo s # (p2 + current_cumulative_pop s)
               # map (\<lambda>c. c + current_cumulative_pop s)
                   (page_counts n net a res
                      (s1\<lparr>pop_repo := max (pop_repo s1) (p2 + current_cumulative_pop s)\<rparr>)))))"
proof (intro conjI)
  show "search n net a (strat_first s) (strat_last s) ''desc'' ''no'' s = Return res s1
      \<and> total_count res = Some p2 \<and> descending_pass n net a s = Return x s'
    \<longrightarrow> max (pop_repo s) p2 \<le> pop_repo s'
        \<and> (link_next res = None
             \<or> (\<forall>k u r c. net k u = Response r \<and> total_count r = Some c
                   \<longrightarrow> c + current_cumulative_pop s \<le> max (pop_repo s) p2)
           \<longrightarrow> pop_repo s' = max (pop_repo s) p2)
        \<and> pop_repo s' =
            Max (set (pop_repo s # p2 # map (\<lambda>c. c + current_cumulative_pop s)
               (page_counts n net a res (s1\<lparr>pop_repo := max (pop_repo s1) p2\<rparr>))))"
  proof
    assume h: "search n net a (strat_first s) (strat_last s) ''desc'' ''no'' s = Return res s1
      \<and> total_count res = Some p2 \<and> descending_pass n net a s = Return x s'"
    then have h1: "search n net a (strat_first s) (strat_last s) ''desc'' ''no'' s = Return res s1"
      and h2: "total_count res = Some p2" and h3: "descending_pass n net a s = Return x s'"
      by simp_all
    from h3 have dl: "download_all_repos n net a res (s1\<lparr>pop_repo := max (pop_repo s1) p2\<rparr>)
        = Return x s'"
      by (simp add: descending_pass_def bind_def h1 h2)
    note r = reconcile[OF h1 dl] and e = reconcile_exact[OF h1 dl]
    show "max (pop_repo s) p2 \<le> pop_repo s'
        \<and> (link_next res = None
             \<or> (\<forall>k u r c. net k u = Response r \<and> total_count r = Some c
                   \<longrightarrow> c + current_cumulative_pop s \<le> max (pop_repo s) p2)
           \<longrightarrow> pop_repo s' = max (pop_repo s) p2)
        \<and> pop_repo s' =
            Max (set (pop_repo s # p2 # map (\<lambda>c. c + current_cumulative_pop s)
               (page_counts n net a res (s1\<lparr>pop_repo := max (pop_repo s1) p2\<rparr>))))"
      by (rule conjI[OF conjunct1[OF r] conjI[OF conjunct2[OF r] e]])
  qed
next
  show "search n net a (strat_first s) (strat_last s) ''desc'' lic s = Return res s1
      \<and> total_count res = Some p2 \<and> license_descending n net a lic s = Return x s'
    \<longrightarrow> max (pop_repo s) (p2 + current_cumulative_pop s) \<le> pop_repo s'
        \<and> (link_next res = None
             \<or> (\<forall>k u r c. net k u = Response r \<and> total_count r = Some c
                   \<longrightarrow> c + current_cumulative_pop s
                         \<le> max (pop_repo s) (p2 + current_cumulative_pop s))
           \<longrightarrow> pop_repo s' = max (pop_repo s) (p2 + current_cumulative_pop s))
        \<and> pop_repo s' =
            Max (set (pop_repo s # (p2 + current_cumulative_pop s)
               # map (\<lambda>c. c + current_cumulative_pop s)
                   (page_counts n net a res
                      (s1\<lparr>pop_repo := max (pop_repo s1) (p2 + current_cumulative_pop s)\<rparr>))))"
  proof
    assume h: "search n net a (strat_first s) (strat_last s) ''desc'' lic s = Return res s1
      \<and> total_count res = Some p2 \<and> license_descending n net a lic s = Return x s'"
    then have h1: "search n net a (strat_first s) (strat_last s) ''desc'' lic s = Return res s1"
      and h2: "total_count res = Some p2" and h3: "license_descending n net a lic s = Return x s'"
      by simp_all
    have "ends_with (client_frame (s\<lparr>searches := searches s
            @ [(strat_first s, strat_last s, ''desc'', lic)]\<rparr>))
       (search n net a (strat_first s) (strat_last s) ''desc'' lic s)"
      by (rule search_frame)
    with h1 have c: "current_cumulative_pop s1 = current_cumulative_pop s"
      by (simp add: client_frame_iff)
    from h3 have dl: "download_all_repos n net a res
        (s1\<lparr>pop_repo := max (pop_repo s1) (p2 + current_cumulative_pop s)\<rparr>) = Return x s'"
      by (simp add: license_descending_def bind_def h1 h2 c)
    note r = reconcile[OF h1 dl] and e = reconcile_exact[OF h1 dl]
    show "max (pop_repo s) (p2 + current_cumulative_pop s) \<le> pop_repo s'
        \<and> (link_next res = None
             \<or> (\<forall>k u r c. net k u = Response r \<and> total_count r = Some c
                   \<longrightarrow> c + current_cumulative_pop s
                         \<le> max (pop_repo s) (p2 + current_cumulative_pop s))
           \<longrightarrow> pop_repo s' = max (pop_repo s) (p2 + current_cumulative_pop s))
        \<and> pop_repo s' =
            Max (set (pop_repo s # (p2 + current_cumulative_pop s)
               # map (\<lambda>c. c + current_cumulative_pop s)
                   (page_counts n net a res
                      (s1\<lparr>pop_repo := max (pop_repo s1) (p2 + current_cumulative_pop s)\<rparr>))))"
      by (rule conjI[OF conjunct1[OF r] conjI[OF conjunct2[OF r] e]])
  qed
qed

lemma net_stable_bound:
  "net_stable k u = Response r \<Longrightarrow> total_count r = Some c \<Longrightarrow> c \<le> 1003"
  by (auto simp: net_stable_def big_page_def ok_response_def total_count_def split: if_splits)

lemma net_mit_bound:
  "net_mit k u = Response r \<Longrightarrow> total_count r = Some c \<Longrightarrow> c \<le> 1200"
  by (auto simp: net_mit_def big_page_def ok_response_def total_count_def split: if_splits)

text \<open>
  Descending passes: after an ascending count of 1001, with 1003 on both pages; with 1001
  on the first page and 1005 on the second; and for the licence \<open>mit\<close>, with 1100 on both
  pages after a population of 1207, of which 7 are of earlier licences.
\<close>

theorem population_reconciliation_witness:
  "pop_repo desc0 = 1001
   \<and> map_option pop_repo (final_state (descending_pass 3 net_stable args_plain desc0))
       = Some (max 1001 1003)
   \<and> (case search 3 net_unstable args_plain (strat_first desc0) (strat_last desc0)
              ''desc'' ''no'' desc0 of
         Return res s1 \<Rightarrow>
           (total_count res,
            page_counts 3 net_unstable args_plain res (s1\<lparr>pop_repo := max (pop_repo s1) 1001\<rparr>))
       | _ \<Rightarrow> (None, [])) = (Some 1001, [1005])
   \<and> map_option pop_repo (final_state (descending_pass 3 net_unstable args_plain desc0))
       = Some (Max (set [1001, 1001, 1005]))
   \<and> pop_repo desc_mit = 1207 \<and> current_cumulative_pop desc_mit = 7
   \<and> map_option pop_repo (final_state (license_descending 3 net_mit args_plain ''mit'' desc_mit))
       = Some (max 1207 (1100 + 7))
   \<and> (case search 3 net_mit args_plain (strat_first desc_mit) (strat_last desc_mit)
              ''desc'' ''mit'' desc_mit of
         Return res s1 \<Rightarrow>
           (total_count res,
            page_counts 3 net_mit args_plain res (s1\<lparr>pop_repo := max (pop_repo s1) (1100 + 7)\<rparr>))
       | _ \<Rightarrow> (None, [])) = (Some 1100, [1100])
   \<and> map_option pop_repo (final_state (license_descending 3 net_mit args_plain ''mit'' desc_mit))
       = Some (Max (set [1207, 1100 + 7, 1100 + 7]))"
proof -
  have d0: "pop_repo desc0 = 1001" "current_cumulative_pop desc0 = 0"
    by (simp_all add: desc0_def sampling1_def start0_def init_globals_def)
  have dm: "pop_repo desc_mit = 1207" "current_cumulative_pop desc_mit = 7"
    by (simp_all add: desc_mit_def)
  have "case search 3 net_stable args_plain (strat_first desc0) (strat_last desc0)
            ''desc'' ''no'' desc0 of
          Return res s1 \<Rightarrow> total_count res = Some 1003 | _ \<Rightarrow> False"
    by code_simp
  then obtain res s1 where q: "search 3 net_stable args_plain (strat_first desc0)
      (strat_last desc0) ''desc'' ''no'' desc0 = Return res s1" "total_count res = Some 1003"
    by (auto split: result.splits)
  have "case descending_pass 3 net_stable args_plain desc0 of
          Return x s' \<Rightarrow> True | _ \<Rightarrow> False"
    by code_simp
  then obtain s' where p: "descending_pass 3 net_stable args_plain desc0 = Return () s'"
    by (auto split: result.splits)
  have b: "\<forall>k u r c. net_stable k u = Response r \<and> total_count r = Some c
      \<longrightarrow> c + current_cumulative_pop desc0 \<le> max (pop_repo desc0) 1003"
    using net_stable_bound by (auto simp: d0)
  from population_reconciliation[where n = 3 and net = net_stable and a = args_plain
      and s = desc0 and res = res and ?s1.0 = s1 and ?p2.0 = 1003 and x = "()" and s' = s',
      THEN conjunct1, rule_format, OF conjI[OF q(1) conjI[OF q(2) p]]] b
  have u: "pop_repo s' = max (pop_repo desc0) 1003" by blast
  have cu: "(case search 3 net_unstable args_plain (strat_first desc0) (strat_last desc0)
              ''desc'' ''no'' desc0 of
         Return res s1 \<Rightarrow>
           (total_count res,
            page_counts 3 net_unstable args_plain res (s1\<lparr>pop_repo := max (pop_repo s1) 1001\<rparr>))
       | _ \<Rightarrow> (None, [])) = (Some 1001, [1005])"
    by code_simp
  then obtain res2 s2 where q2: "search 3 net_unstable args_plain (strat_first desc0)
      (strat_last desc0) ''desc'' ''no'' desc0 = Return res2 s2" "total_count res2 = Some 1001"
    "page_counts 3 net_unstable args_plain res2 (s2\<lparr>pop_repo := max (pop_repo s2) 1001\<rparr>) = [1005]"
    by (auto split: result.splits)
  have "case descending_pass 3 net_unstable args_plain desc0 of
          Return x s' \<Rightarrow> True | _ \<Rightarrow> False"
    by code_simp
  then obtain s2' where p2: "descending_pass 3 net_unstable args_plain desc0 = Return () s2'"
    by (auto split: result.splits)
  from population_reconciliation[where n = 3 and net = net_unstable and a = args_plain
      and s = desc0 and res = res2 and ?s1.0 = s2 and ?p2.0 = 1001 and x = "()" and s' = s2',
      THEN conjunct1, rule_format, OF conjI[OF q2(1) conjI[OF q2(2) p2]]]
  have "pop_repo s2' = Max (set (pop_repo desc0 # 1001 # map (\<lambda>c. c + current_cumulative_pop desc0)
      (page_counts 3 net_unstable args_plain res2 (s2\<lparr>pop_repo := max (pop_repo s2) 1001\<rparr>))))"
    by (elim conjE)
  then have u2: "pop_repo s2' = Max (set [1001, 1001, 1005])"
    by (simp only: q2(3) d0) simp
  have cl: "(case search 3 net_mit args_plain (strat_first desc_mit) (strat_last desc_mit)
              ''desc'' ''mit'' desc_mit of
         Return res s1 \<Rightarrow>
           (total_count res,
            page_counts 3 net_mit args_plain res (s1\<lparr>pop_repo := max (pop_repo s1) (1100 + 7)\<rparr>))
       | _ \<Rightarrow> (None, [])) = (Some 1100, [1100])"
    by code_simp
  then obtain res' t1 where q': "search 3 net_mit args_plain (strat_first desc_mit)
      (strat_last desc_mit) ''desc'' ''mit'' desc_mit = Return res' t1"
      "total_count res' = Some 1100"
      "page_counts 3 net_mit args_plain res' (t1\<lparr>pop_repo := max (pop_repo t1) (1100 + 7)\<rparr>)
         = [1100]"
    by (auto split: result.splits)
  have "case license_descending 3 net_mit args_plain ''mit'' desc_mit of
          Return x s' \<Rightarrow> True | _ \<Rightarrow> False"
    by code_simp
  then obtain t' where p': "license_descending 3 net_mit args_plain ''mit'' desc_mit = Return () t'"
    by (auto split: result.splits)
  have b': "\<forall>k u r c. net_mit k u = Response r \<and> total_count r = Some c
      \<longrightarrow> c + current_cumulative_pop desc_mit
            \<le> max (pop_repo desc_mit) (1100 + current_cumulative_pop desc_mit)"
    using net_mit_bound by (fastforce simp: dm)
  note th = population_reconciliation[where n = 3 and net = net_mit and a = args_plain
      and s = desc_mit and res = res' and ?s1.0 = t1 and ?p2.0 = 1100 and x = "()" and s' = t'
      and lic = "''mit''",
      THEN conjunct2, rule_format, OF conjI[OF q'(1) conjI[OF q'(2) p']]]
  from th b'
  have l: "pop_repo t' = max (pop_repo desc_mit) (1100 + current_cumulative_pop desc_mit)"
    by blast
  from th have "pop_repo t' = Max (set (pop_repo desc_mit # (1100 + current_cumulative_pop desc_mit)
      # map (\<lambda>c. c + current_cumulative_pop desc_mit)
          (page_counts 3 net_mit args_plain res'
             (t1\<lparr>pop_repo := max (pop_repo t1) (1100 + current_cumulative_pop desc_mit)\<rparr>))))"
    by (elim conjE)
  then have l2: "pop_repo t' = Max (set [1207, 1100 + 7, 1100 + 7])"
    by (simp only: dm q'(3)) simp
  have f: "map_option pop_repo (final_state (descending_pass 3 net_stable args_plain desc0))
       = Some (max 1001 1003)"
    unfolding p using u by (simp add: final_state_def d0)
  have f2: "map_option pop_repo (final_state (descending_pass 3 net_unstable args_plain desc0))
       = Some (Max (set [1001, 1001, 1005]))"
    unfolding p2 using u2 by (simp only: final_state_def result.case option.map)
  have g: "map_option pop_repo (final_state (license_descending 3 net_mit args_plain ''mit'' desc_mit))
       = Some (max 1207 (1100 + 7))"
    unfolding p' using l by (simp add: final_state_def dm)
  have g2: "map_option pop_repo (final_state (license_descending 3 net_mit args_plain ''mit'' desc_mit))
       = Some (Max (set [1207, 1100 + 7, 1100 + 7]))"
    unfolding p' using l2 by (simp only: final_state_def result.case option.map)
  show ?thesis
    using d0(1) f cu f2 dm g cl g2 by (intro conjI)
qed

text \<open>
  Both searches of the stratum 1 to 5 count 1001 repositories, and the second page of
  the descending search counts 1005: the row of the stratum records 1005.
\<close>

theorem later_page_raises_population_counterexample:
  "map_option pop_repo (final_state (ascending_pass 2 net_unstable args_plain sampling1))
       = Some 1001
   \<and> (case ascending_pass 2 net_unstable args_plain sampling1 of
         Return x s1 \<Rightarrow>
           (case search 2 net_unstable args_plain (strat_first s1) (strat_last s1)
                   ''desc'' ''no'' s1 of
              Return res s2 \<Rightarrow> total_count res
            | _ \<Rightarrow> None)
       | _ \<Rightarrow> None) = Some 1001
   \<and> map_option pop_repo (final_state (sample_unlicensed 2 net_unstable args_plain sampling1))
       = Some 1005
   \<and> map_option stats (final_state (main_loop 3 net_unstable args_plain start0))
       = Some [[1, 5, 1005, 0, 0, 0], [6, 7, 0, 0, 0, 0]]
   \<and> (1005 :: int) \<noteq> max 1001 1001"
  by code_simp

text \<open>
  C8, on the input where the code departs from it. The first page reports a population
  of 1, holds one new repository and links to a second page. After the first page the
  sample has reached the population, and \<open>download_all_repos\<close> still requests the
  second page and samples a repository from it: the row of the stratum records a sample
  of 2 for a population of 1.
\<close>

theorem second_page_fetched_after_sample_reached_population:
  "map_option (\<lambda>s. (sam_repo s, pop_repo s))
       (final_state (download_repos_from_page 2 net_pages args_plain page1 sampling_one))
     = Some (1, 1)
   \<and> map_option (\<lambda>s. (trace s, sam_repo s, pop_repo s))
       (final_state (download_all_repos 2 net_pages args_plain page1 sampling_one))
     = Some ([Request url_tree1, Request url_page2, Request url_tree2], 2, 1)
   \<and> map_option stats (final_state (main_loop 3 net_pages args_plain start0))
     = Some [[1, 5, 1, 2, 0, 0], [6, 7, 0, 0, 0, 0]]"
  by code_simp

end
